theory Spec2Isabelle
  imports Main "HOL-Library.Sublist"
begin

text \<open>
  SignalLang compiles programs of assignments \<^verbatim>\<open>IDENT = expr ;\<close> over \<^verbatim>\<open>+ - * /\<close>,
  identifiers and numeric literals. This theory embeds the error handler, the scoped symbol
  table, the lexer, the generator of three-address code and the dead code eliminator as
  functions on explicit state, and states the properties of the specification about them.
  Mutation is state passing: a function takes the objects it writes and returns them updated.
\<close>

section \<open>Error handler (errorHandler.h, errorHandler.cpp)\<close>

datatype ErrorPhase = LEXICAL | SYNTAX | SEMANTIC | RUNTIME | GENERIC

datatype Severity = INFO | WARNING | ERROR | FATAL

record CompilerError =
  phase :: ErrorPhase
  severity :: Severity
  message :: string
  line :: int
  column :: int
  recoverable :: bool

text \<open>
  \<^verbatim>\<open>ErrorHandler::report\<close> appends the error to the vector \<^verbatim>\<open>errors\<close> and throws only
  when \<^verbatim>\<open>!recoverable && s == Severity::FATAL && stopOnFatal\<close>. The result is \<open>None\<close>
  for the throw. The handler is the list of stored errors together with the flag.
\<close>

record ErrorHandler =
  errors :: "CompilerError list"
  stopOnFatal :: bool

definition report ::
  "ErrorPhase \<Rightarrow> Severity \<Rightarrow> string \<Rightarrow> int \<Rightarrow> int \<Rightarrow> bool \<Rightarrow> ErrorHandler \<Rightarrow> ErrorHandler option" where
  "report p s msg l c r h =
     (let err = \<lparr>phase = p, severity = s, message = msg, line = l, column = c, recoverable = r\<rparr>;
          h' = h\<lparr>errors := errors h @ [err]\<rparr>
      in if \<not> r \<and> s = FATAL \<and> stopOnFatal h then None else Some h')"

text \<open>
  \<^verbatim>\<open>reportError\<close> calls \<^verbatim>\<open>report\<close> with \<^verbatim>\<open>Severity::ERROR\<close>, so the throw of
  \<^verbatim>\<open>report\<close> is out of reach (lemma \<open>report_ERROR\<close>); it is the function that
  every component of the compiler calls, always with the default \<^verbatim>\<open>recoverable = true\<close>.
  The components share one handler, as in \<^verbatim>\<open>main\<close>; the model threads it through.
\<close>

definition reportError :: "ErrorPhase \<Rightarrow> string \<Rightarrow> int \<Rightarrow> int \<Rightarrow> ErrorHandler \<Rightarrow> ErrorHandler" where
  "reportError p msg l c h =
     h\<lparr>errors := errors h @
       [\<lparr>phase = p, severity = ERROR, message = msg, line = l, column = c, recoverable = True\<rparr>]\<rparr>"

section \<open>Decimal and hexadecimal rendering (\<^verbatim>\<open>std::to_string\<close>, \<^verbatim>\<open>SymbolTable::to_hex\<close>)\<close>

text \<open>
  \<^verbatim>\<open>to_string(int)\<close> prints a decimal number with a sign; \<^verbatim>\<open>to_hex(int)\<close> streams the
  value with \<^verbatim>\<open>std::hex\<close>, which prints a 32-bit \<^verbatim>\<open>int\<close> as the unsigned value of
  its bit pattern.
\<close>

definition digit_char :: "int \<Rightarrow> char" where
  "digit_char d = (if d < 10 then char_of (48 + d) else char_of (87 + d))"

function dec_digits :: "int \<Rightarrow> string" where
  "dec_digits n =
     (if n < 10 then [digit_char n] else dec_digits (n div 10) @ [digit_char (n mod 10)])"
  by pat_completeness auto
termination
  by (relation "measure nat") auto

declare dec_digits.simps [simp del]

definition to_string :: "int \<Rightarrow> string" where
  "to_string i = (if i < 0 then CHR ''-'' # dec_digits (- i) else dec_digits i)"

function hex_digits :: "int \<Rightarrow> string" where
  "hex_digits n =
     (if n < 16 then [digit_char n] else hex_digits (n div 16) @ [digit_char (n mod 16)])"
  by pat_completeness auto
termination
  by (relation "measure nat") auto

declare hex_digits.simps [simp del]

definition to_hex :: "int \<Rightarrow> string" where
  "to_hex x = hex_digits (x mod 4294967296)"

section \<open>Symbol table (symbolTable.h, symbolTable.cpp)\<close>

record SymbolEntry =
  name :: string
  kind :: string
  type :: string
  scopeLevel :: int
  memoryAddr :: string
  value_text :: string
  is_state :: bool
  is_used :: bool
  decl_line :: int
  is_dummy :: bool

text \<open>The parameterised constructor \<^verbatim>\<open>SymbolEntry(n, k, t, s, line)\<close>; the other fields
  take their in-class defaults.\<close>

definition mkEntry :: "string \<Rightarrow> string \<Rightarrow> string \<Rightarrow> int \<Rightarrow> int \<Rightarrow> SymbolEntry" where
  "mkEntry n k t s l =
     \<lparr>name = n, kind = k, type = t, scopeLevel = s, memoryAddr = [], value_text = [],
      is_state = False, is_used = False, decl_line = l, is_dummy = False\<rparr>"

text \<open>
  A scope frame is a \<^verbatim>\<open>std::unordered_map<string, SymbolEntry>\<close>: at most one entry per
  key, iteration order unspecified. The frame is an association list that is read with
  \<open>map_of\<close> and written with \<open>frame_put\<close> (replace the binding of the key where it
  stands, append otherwise), so the list enumerates the entries in insertion order.
  \<^verbatim>\<open>scopes\<close> is the vector of frames: index 0 the global frame, \<open>last\<close> the innermost
  one (\<^verbatim>\<open>scopes.back()\<close>).
\<close>

type_synonym frame = "(string \<times> SymbolEntry) list"

fun frame_put :: "string \<Rightarrow> SymbolEntry \<Rightarrow> frame \<Rightarrow> frame" where
  "frame_put k v [] = [(k, v)]"
| "frame_put k v (p # ps) = (if fst p = k then (k, v) # ps else p # frame_put k v ps)"

record SymbolTable =
  scopes :: "frame list"
  nextMemoryIndex :: int

text \<open>The constructor: counter 0 and one call of \<^verbatim>\<open>beginScope\<close>.\<close>

definition beginScope :: "SymbolTable \<Rightarrow> SymbolTable" where
  "beginScope st = st\<lparr>scopes := scopes st @ [[]]\<rparr>"

definition newSymbolTable :: SymbolTable where
  "newSymbolTable = beginScope \<lparr>scopes = [], nextMemoryIndex = 0\<rparr>"

definition endScope :: "SymbolTable \<Rightarrow> SymbolTable" where
  "endScope st = (if scopes st \<noteq> [] then st\<lparr>scopes := butlast (scopes st)\<rparr> else st)"

text \<open>\<^verbatim>\<open>static_cast<int>(scopes.size() - 1)\<close>: on an empty vector the unsigned
  subtraction wraps and the cast gives -1.\<close>

definition currentScope :: "SymbolTable \<Rightarrow> int" where
  "currentScope st = int (length (scopes st)) - 1"

text \<open>The replacement of the innermost frame (writes through \<^verbatim>\<open>scopes.back()\<close>).\<close>

definition set_back :: "frame \<Rightarrow> SymbolTable \<Rightarrow> SymbolTable" where
  "set_back f st = st\<lparr>scopes := butlast (scopes st) @ [f]\<rparr>"

definition reportDuplicate :: "SymbolEntry \<Rightarrow> SymbolEntry \<Rightarrow> ErrorHandler \<Rightarrow> ErrorHandler" where
  "reportDuplicate existing attempt h =
     reportError SEMANTIC
       (''Duplicate declaration of '' @ [CHR 0x27] @ name attempt @ [CHR 0x27] @
        ''; previously declared at line '' @ to_string (decl_line existing))
       (decl_line attempt) (- 1) h"

definition assignAddr :: "SymbolEntry \<Rightarrow> int \<Rightarrow> SymbolEntry \<times> int" where
  "assignAddr e n =
     (if memoryAddr e = [] then
        (if kind e = ''variable'' \<and> is_state e then
           (e\<lparr>memoryAddr := ''0x'' @ to_hex (4096 + n)\<rparr>, n + 1)
         else if kind e = ''variable'' \<and> scopeLevel e = 0 then
           (e\<lparr>memoryAddr := ''0x'' @ to_hex (4096 + n)\<rparr>, n + 1)
         else (e\<lparr>memoryAddr := ''stk'' @ to_string n\<rparr>, n + 1))
      else (e, n))"

definition insert_entry ::
  "SymbolEntry \<Rightarrow> SymbolTable \<times> ErrorHandler \<Rightarrow> bool \<times> SymbolTable \<times> ErrorHandler" where
  "insert_entry entry sh =
     (let st = fst sh; h = snd sh in
      if scopes st = [] then (False, st, h)
      else
        (let table = last (scopes st) in
         case map_of table (name entry) of
           Some existing \<Rightarrow> (False, st, reportDuplicate existing entry h)
         | None \<Rightarrow>
             (let e = entry\<lparr>scopeLevel := currentScope st\<rparr>;
                  (e', n') = assignAddr e (nextMemoryIndex st)
              in (True, set_back (frame_put (name e') e' table) (st\<lparr>nextMemoryIndex := n'\<rparr>), h))))"

text \<open>\<^verbatim>\<open>lookup\<close> scans the frames from index \<^verbatim>\<open>size - 1\<close> down to 0 and returns a
  pointer into the first frame holding the name; \<open>find_scope\<close> is that loop and gives
  the index of the frame, through which the callers read and write the entry.\<close>

fun find_scope :: "nat \<Rightarrow> frame list \<Rightarrow> string \<Rightarrow> nat option" where
  "find_scope 0 fs n = None"
| "find_scope (Suc i) fs n = (if map_of (fs ! i) n \<noteq> None then Some i else find_scope i fs n)"

definition lookup :: "SymbolTable \<Rightarrow> string \<Rightarrow> SymbolEntry option" where
  "lookup st n = (case find_scope (length (scopes st)) (scopes st) n of
                    None \<Rightarrow> None | Some i \<Rightarrow> map_of (scopes st ! i) n)"

definition lookupLocal :: "SymbolTable \<Rightarrow> string \<Rightarrow> SymbolEntry option" where
  "lookupLocal st n = (if scopes st = [] then None else map_of (last (scopes st)) n)"

definition existsInCurrentScope :: "SymbolTable \<Rightarrow> string \<Rightarrow> bool" where
  "existsInCurrentScope st n = (lookupLocal st n \<noteq> None)"

definition insertTokenPlaceholder ::
  "string \<Rightarrow> int \<Rightarrow> SymbolTable \<times> ErrorHandler \<Rightarrow> bool \<times> SymbolTable \<times> ErrorHandler" where
  "insertTokenPlaceholder n token_line sh =
     (if existsInCurrentScope (fst sh) n then (False, fst sh, snd sh)
      else insert_entry
             ((mkEntry n ''token'' ''unknown'' (currentScope (fst sh)) token_line)
                \<lparr>is_dummy := True, decl_line := token_line\<rparr>) sh)"

text \<open>\<^verbatim>\<open>markUsed\<close>: the handler is dereferenced without a null check; the table is
  constructed with the shared handler.\<close>

definition markUsed :: "string \<Rightarrow> SymbolTable \<times> ErrorHandler \<Rightarrow> SymbolTable \<times> ErrorHandler" where
  "markUsed n sh =
     (let st = fst sh; h = snd sh in
      case find_scope (length (scopes st)) (scopes st) n of
        Some i \<Rightarrow>
          (case map_of (scopes st ! i) n of
             Some e \<Rightarrow> (st\<lparr>scopes := (scopes st)[i := frame_put n (e\<lparr>is_used := True\<rparr>) (scopes st ! i)]\<rparr>, h)
           | None \<Rightarrow> (st, h))
      | None \<Rightarrow>
          (let h' = reportError SEMANTIC
                      (''Undeclared Identifier '' @ [CHR 0x27] @ n @ [CHR 0x27] @ '' used'') (- 1) (- 1) h;
               d = (mkEntry n ''variable'' ''unknown'' 0 (- 1))\<lparr>is_dummy := True, is_used := True\<rparr>
           in if scopes st \<noteq> []
              then (st\<lparr>scopes := (scopes st)[0 := frame_put n d (scopes st ! 0)]\<rparr>, h')
              else (st, h')))"

definition updateEntry ::
  "string \<Rightarrow> (SymbolEntry \<Rightarrow> SymbolEntry) \<Rightarrow> SymbolTable \<times> ErrorHandler
     \<Rightarrow> bool \<times> SymbolTable \<times> ErrorHandler" where
  "updateEntry n updater sh =
     (case lookupLocal (fst sh) n of
        Some e \<Rightarrow> (True, set_back (frame_put n (updater e) (last (scopes (fst sh)))) (fst sh), snd sh)
      | None \<Rightarrow>
          (let (ok, st', h') =
                 insert_entry (mkEntry n ''variable'' ''unknown'' (currentScope (fst sh)) (- 1)) sh
           in if \<not> ok then (False, st', h')
              else (case lookupLocal st' n of
                      None \<Rightarrow> (False, st', h')
                    | Some e \<Rightarrow> (True, set_back (frame_put n (updater e) (last (scopes st'))) st', h'))))"

text \<open>\<^verbatim>\<open>getUnusedEntries\<close>: frames from the innermost to the global one, each in the
  frame's iteration order.\<close>

definition getUnusedEntries :: "SymbolTable \<Rightarrow> SymbolEntry list" where
  "getUnusedEntries st =
     concat (map (\<lambda>f. filter (\<lambda>e. \<not> is_used e) (map snd f)) (rev (scopes st)))"

section \<open>Lexer (lexer.cpp)\<close>

datatype TokenKind =
  IDENT | FLOAT_LIT | SEMICOLON | PLUS | MINUS | STAR | SLASH | ASSIGN | END_OF_FILE | UNKNOWN

record Token =
  tkind :: TokenKind
  lexeme :: string
  tline :: int
  tcolumn :: int

definition mkToken :: "TokenKind \<Rightarrow> string \<Rightarrow> int \<Rightarrow> int \<Rightarrow> Token" where
  "mkToken k s l c = \<lparr>tkind = k, lexeme = s, tline = l, tcolumn = c\<rparr>"

text \<open>The character classes of \<^verbatim>\<open><cctype>\<close> in the default "C" locale.\<close>

definition isspace :: "char \<Rightarrow> bool" where
  "isspace c = (let n = (of_char c :: nat) in n = 32 \<or> (9 \<le> n \<and> n \<le> 13))"

definition isalpha :: "char \<Rightarrow> bool" where
  "isalpha c = (let n = (of_char c :: nat) in (65 \<le> n \<and> n \<le> 90) \<or> (97 \<le> n \<and> n \<le> 122))"

definition isdigit :: "char \<Rightarrow> bool" where
  "isdigit c = (let n = (of_char c :: nat) in 48 \<le> n \<and> n \<le> 57)"

definition isalnum :: "char \<Rightarrow> bool" where
  "isalnum c = (isalpha c \<or> isdigit c)"

definition isIdentStart :: "char \<Rightarrow> bool" where
  "isIdentStart c = (isalpha c \<or> c = CHR ''_'')"

definition isIdentBody :: "char \<Rightarrow> bool" where
  "isIdentBody c = (isalnum c \<or> c = CHR ''_'')"

text \<open>
  The lexer state. \<open>src\<close> is \<open>None\<close> before \<^verbatim>\<open>setSource\<close> (the null pointer);
  \<^verbatim>\<open>length\<close> is the size of the owned text. \<open>symtab\<close> tells whether the lexer was
  constructed with a pointer to the symbol table (\<open>True\<close>, as in the driver) or with a
  null pointer. The error handler is the shared one.
\<close>

record Lexer =
  src :: "string option"
  idx :: nat
  lline :: int
  lcol :: int
  symtab :: bool

definition text_of :: "Lexer \<Rightarrow> string" where
  "text_of lx = (case src lx of None \<Rightarrow> [] | Some t \<Rightarrow> t)"

definition newLexer :: "bool \<Rightarrow> Lexer" where
  "newLexer linked = \<lparr>src = None, idx = 0, lline = 1, lcol = 1, symtab = linked\<rparr>"

definition setSource :: "string \<Rightarrow> Lexer \<Rightarrow> Lexer" where
  "setSource source lx = lx\<lparr>src := Some source, idx := 0, lline := 1, lcol := 1\<rparr>"

definition eof :: "Lexer \<Rightarrow> bool" where
  "eof lx = (idx lx \<ge> length (text_of lx))"

definition peek :: "Lexer \<Rightarrow> nat \<Rightarrow> char" where
  "peek lx offset = (let pos = idx lx + offset in
                      if pos \<ge> length (text_of lx) then CHR 0x00 else text_of lx ! pos)"

definition get :: "Lexer \<Rightarrow> char \<times> Lexer" where
  "get lx =
     (if eof lx then (CHR 0x00, lx)
      else (let c = text_of lx ! idx lx; lx' = lx\<lparr>idx := idx lx + 1\<rparr>
            in if c = CHR 0x0A then (c, lx'\<lparr>lline := lline lx + 1, lcol := 1\<rparr>)
               else (c, lx'\<lparr>lcol := lcol lx + 1\<rparr>)))"

function skipWhitespace :: "Lexer \<Rightarrow> Lexer" where
  "skipWhitespace lx =
     (if \<not> eof lx \<and> isspace (peek lx 0) then skipWhitespace (snd (get lx)) else lx)"
  by pat_completeness auto
termination
  by (relation "measure (\<lambda>lx. length (text_of lx) - idx lx)")
     (auto simp: get_def eof_def text_of_def Let_def)

declare skipWhitespace.simps [simp del]

text \<open>The loop \<^verbatim>\<open>while (!eof() && P(peek())) lex.push_back(get());\<close> of
  \<^verbatim>\<open>lexIdentifier\<close> and \<^verbatim>\<open>lexNumber\<close>.\<close>

function scan_while :: "(char \<Rightarrow> bool) \<Rightarrow> Lexer \<Rightarrow> string \<Rightarrow> string \<times> Lexer" where
  "scan_while P lx lxm =
     (if \<not> eof lx \<and> P (peek lx 0) then scan_while P (snd (get lx)) (lxm @ [fst (get lx)])
      else (lxm, lx))"
  by pat_completeness auto
termination
  by (relation "measure (\<lambda>(P, lx, lxm). length (text_of lx) - idx lx)")
     (auto simp: get_def eof_def text_of_def Let_def)

declare scan_while.simps [simp del]

definition lexIdentifier ::
  "Lexer \<times> SymbolTable \<times> ErrorHandler \<Rightarrow> Token \<times> Lexer \<times> SymbolTable \<times> ErrorHandler" where
  "lexIdentifier w =
     (let lx = fst w; st = fst (snd w); h = snd (snd w);
          startLine = lline lx; startCol = lcol lx;
          (lxm, lx') = scan_while isIdentBody lx [];
          (st', h') = (if symtab lx \<and> \<not> existsInCurrentScope st lxm
                       then snd (insertTokenPlaceholder lxm startLine (st, h)) else (st, h))
      in (mkToken IDENT lxm startLine startCol, lx', st', h'))"

definition lexNumber :: "Lexer \<times> ErrorHandler \<Rightarrow> Token \<times> Lexer \<times> ErrorHandler" where
  "lexNumber w =
     (let lx = fst w; h = snd w; startLine = lline lx; startCol = lcol lx in
      if peek lx 0 = CHR ''.'' then
        (let (c, lx1) = get lx in
         if \<not> isdigit (peek lx1 0) then
           (mkToken UNKNOWN [c] startLine startCol, lx1,
            reportError LEXICAL ''Malformed number literal: '.' not followed by digits''
              (lline lx1) (lcol lx1) h)
         else (let (lxm, lx2) = scan_while isdigit lx1 [c]
               in (mkToken FLOAT_LIT lxm startLine startCol, lx2, h)))
      else
        (let (lxm1, lx1) = scan_while isdigit lx [];
             (lxm2, lx2) = (if peek lx1 0 = CHR ''.''
                            then scan_while isdigit (snd (get lx1)) (lxm1 @ [fst (get lx1)])
                            else (lxm1, lx1))
         in (mkToken FLOAT_LIT lxm2 startLine startCol, lx2, h)))"

definition lexOperatorOrSymbol :: "Lexer \<times> ErrorHandler \<Rightarrow> Token \<times> Lexer \<times> ErrorHandler" where
  "lexOperatorOrSymbol w =
     (let lx = fst w; h = snd w; startLine = lline lx; startCol = lcol lx;
          (c, lx') = get lx in
      if c = CHR ''+'' then (mkToken PLUS ''+'' startLine startCol, lx', h)
      else if c = CHR ''-'' then (mkToken MINUS ''-'' startLine startCol, lx', h)
      else if c = CHR ''*'' then (mkToken STAR ''*'' startLine startCol, lx', h)
      else if c = CHR ''/'' then (mkToken SLASH ''/'' startLine startCol, lx', h)
      else if c = CHR ''='' then (mkToken ASSIGN ''='' startLine startCol, lx', h)
      else if c = CHR '';'' then (mkToken SEMICOLON '';'' startLine startCol, lx', h)
      else (mkToken UNKNOWN [c] startLine startCol, lx',
            reportError LEXICAL (''Unrecognized symbol '' @ [CHR 0x27] @ [c] @ [CHR 0x27])
              (lline lx') (lcol lx') h))"

definition getNextToken ::
  "Lexer \<times> SymbolTable \<times> ErrorHandler \<Rightarrow> Token \<times> Lexer \<times> SymbolTable \<times> ErrorHandler" where
  "getNextToken w =
     (let lx = fst w; st = fst (snd w); h = snd (snd w) in
      case src lx of
        None \<Rightarrow> (mkToken END_OF_FILE ''<EOF>'' 0 0, lx, st, h)
      | Some _ \<Rightarrow>
          (let lx1 = skipWhitespace lx in
           if eof lx1 then (mkToken END_OF_FILE ''<EOF>'' (lline lx1) (lcol lx1), lx1, st, h)
           else (let c = peek lx1 0 in
                 if isIdentStart c then lexIdentifier (lx1, st, h)
                 else if isdigit c \<or> (c = CHR ''.'' \<and> isdigit (peek lx1 1)) then
                   (let (t, lx2, h') = lexNumber (lx1, h) in (t, lx2, st, h'))
                 else (let (t, lx2, h') = lexOperatorOrSymbol (lx1, h) in (t, lx2, st, h')))))"

section \<open>Three-address code (tac.h)\<close>

datatype TACOp = LOAD_CONST | OP_ASSIGN | ADD | SUB | MUL | DIV | NOP

record TacInst =
  op :: TACOp
  dest :: string
  arg1 :: string
  arg2 :: string
  arg1Literal :: string

text \<open>The default constructor: \<^verbatim>\<open>NOP\<close> and empty strings.\<close>

definition newInst :: TacInst where
  "newInst = \<lparr>op = NOP, dest = [], arg1 = [], arg2 = [], arg1Literal = []\<rparr>"

section \<open>TAC generator (tacGen.h, tacGen.cpp)\<close>

text \<open>
  The generator holds pointers to the lexer, the symbol table and the error handler, its
  lookahead token, the temporary counter and the stack of freed temporaries (top of the
  stack = head of the list). The record carries the three objects themselves and the
  output vector \<^verbatim>\<open>out\<close> that every parsing function receives by reference. The error
  handler is the one the driver passes to all three components, so every \<^verbatim>\<open>if (err)\<close> test
  of the generator succeeds. The counters are C++ \<^verbatim>\<open>int\<close>s that only count up from 0; they
  are unbounded integers here.
\<close>

record Gen =
  lexer :: Lexer
  sym :: SymbolTable
  err :: ErrorHandler
  cur :: Token
  tempCounter :: int
  freeTemps :: "string list"
  out :: "TacInst list"

text \<open>\<^verbatim>\<open>advance\<close>; \<^verbatim>\<open>nextToken\<close> does the same and returns the old token, which no
  caller reads.\<close>

definition advance :: "Gen \<Rightarrow> Gen" where
  "advance g = (let (t, lx, st, h) = getNextToken (lexer g, sym g, err g)
                in g\<lparr>lexer := lx, sym := st, err := h, cur := t\<rparr>)"

text \<open>The constructor reads the first token.\<close>

definition newGen :: "Lexer \<Rightarrow> SymbolTable \<Rightarrow> ErrorHandler \<Rightarrow> Gen" where
  "newGen lx st h =
     advance \<lparr>lexer = lx, sym = st, err = h, cur = mkToken UNKNOWN [] 0 0,
              tempCounter = 0, freeTemps = [], out = []\<rparr>"

definition newTemp :: "Gen \<Rightarrow> string \<times> Gen" where
  "newTemp g =
     (case freeTemps g of
        t # ts \<Rightarrow> (t, g\<lparr>freeTemps := ts\<rparr>)
      | [] \<Rightarrow> (''t'' @ to_string (tempCounter g), g\<lparr>tempCounter := tempCounter g + 1\<rparr>))"

definition emitLoadConst :: "string \<Rightarrow> string \<Rightarrow> Gen \<Rightarrow> Gen" where
  "emitLoadConst d literal g =
     g\<lparr>out := out g @ [newInst\<lparr>op := LOAD_CONST, dest := d, arg1Literal := literal\<rparr>]\<rparr>"

definition emitBinary :: "TACOp \<Rightarrow> string \<Rightarrow> string \<Rightarrow> string \<Rightarrow> Gen \<Rightarrow> Gen" where
  "emitBinary opc d a b g = g\<lparr>out := out g @ [newInst\<lparr>op := opc, dest := d, arg1 := a, arg2 := b\<rparr>]\<rparr>"

definition emitAssign :: "string \<Rightarrow> string \<Rightarrow> Gen \<Rightarrow> Gen" where
  "emitAssign d s g = g\<lparr>out := out g @ [newInst\<lparr>op := OP_ASSIGN, dest := d, arg1 := s\<rparr>]\<rparr>"

definition syntaxError :: "string \<Rightarrow> Gen \<Rightarrow> Gen" where
  "syntaxError msg g = g\<lparr>err := reportError SYNTAX msg (tline (cur g)) (tcolumn (cur g)) (err g)\<rparr>"

text \<open>\<^verbatim>\<open>if (x.size()>0 && x[0]=='t') freeTemps.push(x);\<close>\<close>

definition release :: "string \<Rightarrow> Gen \<Rightarrow> Gen" where
  "release x g = (if x \<noteq> [] \<and> hd x = CHR ''t'' then g\<lparr>freeTemps := x # freeTemps g\<rparr> else g)"

text \<open>The parsing functions return \<open>None\<close> for \<^verbatim>\<open>false\<close> and \<open>Some result\<close> for
  \<^verbatim>\<open>true\<close> with the name written to the reference parameter.\<close>

definition parseFactor :: "Gen \<Rightarrow> string option \<times> Gen" where
  "parseFactor g =
     (if tkind (cur g) = IDENT then
        (let n = lexeme (cur g);
             (st, h) = markUsed n (sym g, err g)
         in (Some n, advance (g\<lparr>sym := st, err := h\<rparr>)))
      else if tkind (cur g) = FLOAT_LIT then
        (let lit = lexeme (cur g);
             (d, g1) = newTemp g
         in (Some d, advance (emitLoadConst d lit g1)))
      else (None, syntaxError ''Expected identifier or float literal'' g))"

text \<open>The measure of the parsing loops: the characters the lexer has not read, plus one
  while the lookahead is not the end marker.\<close>

definition remaining :: "Lexer \<Rightarrow> nat" where
  "remaining lx = length (text_of lx) - idx lx"

definition pending :: "Gen \<Rightarrow> nat" where
  "pending g = remaining (lexer g) + (if tkind (cur g) = END_OF_FILE then 0 else 1)"

subsection \<open>Every token read from the lexer consumes input\<close>

lemma remaining_get_le: "remaining (snd (get lx)) \<le> remaining lx"
  by (auto simp: get_def remaining_def eof_def text_of_def Let_def)

lemma remaining_get_less: "\<not> eof lx \<Longrightarrow> remaining (snd (get lx)) < remaining lx"
  by (auto simp: get_def remaining_def eof_def text_of_def Let_def)

lemma remaining_skipWhitespace: "remaining (skipWhitespace lx) \<le> remaining lx"
proof (induction lx rule: skipWhitespace.induct)
  case (1 lx)
  show ?case
  proof (cases "\<not> eof lx \<and> isspace (peek lx 0)")
    case True
    then have "remaining (skipWhitespace lx) = remaining (skipWhitespace (snd (get lx)))"
      by (subst skipWhitespace.simps) simp
    also have "\<dots> \<le> remaining (snd (get lx))" using 1 True by simp
    also have "\<dots> \<le> remaining lx" by (rule remaining_get_le)
    finally show ?thesis .
  next
    case False
    then show ?thesis by (subst skipWhitespace.simps) auto
  qed
qed

lemma remaining_scan_while: "remaining (snd (scan_while P lx acc)) \<le> remaining lx"
proof (induction P lx acc rule: scan_while.induct)
  case (1 P lx acc)
  show ?case
  proof (cases "\<not> eof lx \<and> P (peek lx 0)")
    case True
    then have "remaining (snd (scan_while P lx acc))
        = remaining (snd (scan_while P (snd (get lx)) (acc @ [fst (get lx)])))"
      by (subst scan_while.simps) simp
    also have "\<dots> \<le> remaining (snd (get lx))" using 1 True by simp
    also have "\<dots> \<le> remaining lx" by (rule remaining_get_le)
    finally show ?thesis .
  next
    case False
    then show ?thesis by (subst scan_while.simps) auto
  qed
qed

lemma remaining_scan_while_less:
  "\<not> eof lx \<Longrightarrow> P (peek lx 0) \<Longrightarrow> remaining (snd (scan_while P lx acc)) < remaining lx"
proof -
  assume a: "\<not> eof lx" "P (peek lx 0)"
  then have "remaining (snd (scan_while P lx acc))
      = remaining (snd (scan_while P (snd (get lx)) (acc @ [fst (get lx)])))"
    by (subst scan_while.simps) simp
  also have "\<dots> \<le> remaining (snd (get lx))" by (rule remaining_scan_while)
  also have "\<dots> < remaining lx" using a by (simp add: remaining_get_less)
  finally show ?thesis .
qed

lemma lexIdentifier_lexer:
  "fst (snd (lexIdentifier (lx, st, h))) = snd (scan_while isIdentBody lx [])"
  "tkind (fst (lexIdentifier (lx, st, h))) = IDENT"
  by (simp_all add: lexIdentifier_def Let_def split_beta mkToken_def)

lemma lexIdentifier_progress:
  "\<not> eof lx \<Longrightarrow> isIdentStart (peek lx 0) \<Longrightarrow>
   remaining (fst (snd (lexIdentifier (lx, st, h)))) < remaining lx \<and>
   tkind (fst (lexIdentifier (lx, st, h))) = IDENT"
  using remaining_scan_while_less [of lx isIdentBody "[]"]
  by (auto simp: lexIdentifier_lexer isIdentStart_def isIdentBody_def isalnum_def)

lemma lexNumber_progress:
  assumes a: "\<not> eof lx" and b: "isdigit (peek lx 0) \<or> peek lx 0 = CHR ''.''"
  shows "remaining (fst (snd (lexNumber (lx, h)))) < remaining lx \<and>
   tkind (fst (lexNumber (lx, h))) \<noteq> END_OF_FILE"
proof (cases "peek lx 0 = CHR ''.''")
  case True
  have le: "remaining (snd (scan_while isdigit (snd (get lx)) [fst (get lx)])) < remaining lx"
    using remaining_scan_while [of isdigit "snd (get lx)" "[fst (get lx)]"] remaining_get_less [OF a]
    by simp
  show ?thesis using True le remaining_get_less [OF a]
    by (simp add: lexNumber_def Let_def mkToken_def split_beta)
next
  case False
  with b have d: "isdigit (peek lx 0)" by simp
  define lx1 where "lx1 = snd (scan_while isdigit lx [])"
  have l1: "remaining lx1 < remaining lx"
    unfolding lx1_def using a d by (rule remaining_scan_while_less [where P = isdigit])
  have l2: "remaining (snd (scan_while isdigit (snd (get lx1)) acc)) \<le> remaining lx1" for acc
    using remaining_scan_while [of isdigit "snd (get lx1)" acc] remaining_get_le [of lx1] by simp
  show ?thesis using False l1 l2 [of "fst (scan_while isdigit lx []) @ [fst (get lx1)]"]
    by (simp add: lexNumber_def Let_def mkToken_def split_beta lx1_def)
qed

lemma lexOperatorOrSymbol_progress:
  "\<not> eof lx \<Longrightarrow>
   remaining (fst (snd (lexOperatorOrSymbol (lx, h)))) < remaining lx \<and>
   tkind (fst (lexOperatorOrSymbol (lx, h))) \<noteq> END_OF_FILE"
  using remaining_get_less [of lx]
  by (simp add: lexOperatorOrSymbol_def Let_def mkToken_def split_beta)

lemma getNextToken_progress:
  assumes "getNextToken (lx, st, h) = (t, lx', st', h')"
  shows "remaining lx' \<le> remaining lx"
    and "tkind t \<noteq> END_OF_FILE \<Longrightarrow> remaining lx' < remaining lx"
proof -
  have "remaining lx' \<le> remaining lx \<and> (tkind t \<noteq> END_OF_FILE \<longrightarrow> remaining lx' < remaining lx)"
  proof (cases "src lx")
    case None
    with assms show ?thesis by (auto simp: getNextToken_def mkToken_def)
  next
    case (Some a)
    define lx1 where "lx1 = skipWhitespace lx"
    have r1: "remaining lx1 \<le> remaining lx" by (simp add: lx1_def remaining_skipWhitespace)
    show ?thesis
    proof (cases "eof lx1")
      case True
      with assms Some r1 show ?thesis by (auto simp: getNextToken_def mkToken_def Let_def lx1_def)
    next
      case False
      consider (i) "isIdentStart (peek lx1 0)"
        | (n) "\<not> isIdentStart (peek lx1 0)" "isdigit (peek lx1 0) \<or> (peek lx1 0 = CHR ''.'' \<and> isdigit (peek lx1 1))"
        | (o) "\<not> isIdentStart (peek lx1 0)" "\<not> (isdigit (peek lx1 0) \<or> (peek lx1 0 = CHR ''.'' \<and> isdigit (peek lx1 1)))"
        by blast
      then show ?thesis
      proof cases
        case i
        then have "getNextToken (lx, st, h) = lexIdentifier (lx1, st, h)"
          using Some False by (auto simp: getNextToken_def Let_def lx1_def)
        with assms lexIdentifier_progress [OF False i, of st h] r1 show ?thesis by simp
      next
        case n
        then have "getNextToken (lx, st, h) =
            (let (t, lx2, h') = lexNumber (lx1, h) in (t, lx2, st, h'))"
          using Some False by (auto simp: getNextToken_def Let_def lx1_def)
        moreover have "isdigit (peek lx1 0) \<or> peek lx1 0 = CHR ''.''" using n by blast
        ultimately show ?thesis
          using assms lexNumber_progress [OF False, of h] r1 by (auto simp: split_beta)
      next
        case o
        then have "getNextToken (lx, st, h) =
            (let (t, lx2, h') = lexOperatorOrSymbol (lx1, h) in (t, lx2, st, h'))"
          using Some False by (auto simp: getNextToken_def Let_def lx1_def)
        then show ?thesis
          using assms lexOperatorOrSymbol_progress [OF False, of h] r1 by (auto simp: split_beta)
      qed
    qed
  qed
  then show "remaining lx' \<le> remaining lx"
    and "tkind t \<noteq> END_OF_FILE \<Longrightarrow> remaining lx' < remaining lx" by auto
qed

lemma pending_advance:
  assumes "tkind (cur g) \<noteq> END_OF_FILE"
  shows "pending (advance g) < pending g"
proof -
  obtain t lx st h where e: "getNextToken (lexer g, sym g, err g) = (t, lx, st, h)"
    by (metis prod_cases4)
  have a: "advance g = g\<lparr>lexer := lx, sym := st, err := h, cur := t\<rparr>"
    by (simp add: advance_def e)
  show ?thesis
    using getNextToken_progress [OF e] assms by (auto simp: a pending_def)
qed

lemma pending_simps [simp]:
  "pending (g\<lparr>sym := st\<rparr>) = pending g"
  "pending (g\<lparr>err := h\<rparr>) = pending g"
  "pending (g\<lparr>out := os\<rparr>) = pending g"
  "pending (g\<lparr>freeTemps := ts\<rparr>) = pending g"
  "pending (g\<lparr>tempCounter := n\<rparr>) = pending g"
  by (simp_all add: pending_def)

lemma cur_simps [simp]:
  "cur (emitLoadConst d l g) = cur g" "cur (emitBinary opc d a b g) = cur g"
  "cur (emitAssign d a g) = cur g" "cur (syntaxError m g) = cur g"
  "cur (release x g) = cur g" "cur (snd (newTemp g)) = cur g"
  by (simp_all add: emitLoadConst_def emitBinary_def emitAssign_def syntaxError_def release_def
        newTemp_def split: list.splits)

lemma pending_ops [simp]:
  "pending (emitLoadConst d l g) = pending g" "pending (emitBinary opc d a b g) = pending g"
  "pending (emitAssign d a g) = pending g" "pending (syntaxError m g) = pending g"
  "pending (release x g) = pending g" "pending (snd (newTemp g)) = pending g"
  by (simp_all add: emitLoadConst_def emitBinary_def emitAssign_def syntaxError_def release_def
        newTemp_def split: list.splits)

lemma pending_parseFactor: "pending (snd (parseFactor g)) \<le> pending g"
proof -
  have "tkind (cur g) = IDENT \<Longrightarrow> pending (advance (g\<lparr>sym := st, err := h\<rparr>)) < pending g" for st h
    using pending_advance [of "g\<lparr>sym := st, err := h\<rparr>"] by simp
  moreover have "tkind (cur g) = FLOAT_LIT \<Longrightarrow>
      pending (advance (emitLoadConst d l (snd (newTemp g)))) < pending g" for d l
    using pending_advance [of "emitLoadConst d l (snd (newTemp g))"] by simp
  ultimately show ?thesis
    by (auto simp: parseFactor_def Let_def split_beta less_imp_le)
qed

function term_loop :: "string \<Rightarrow> Gen \<Rightarrow> string option \<times> Gen" where
  "term_loop left g =
     (if tkind (cur g) = STAR \<or> tkind (cur g) = SLASH then
        (let opk = tkind (cur g); g1 = advance g in
         case parseFactor g1 of
           (None, g2) \<Rightarrow> (None, syntaxError ''Missing factor after operator'' g2)
         | (Some right, g2) \<Rightarrow>
             (let (d, g3) = newTemp g2;
                  g4 = emitBinary (if opk = STAR then MUL else DIV) d left right g3;
                  g5 = release left g4;
                  g6 = release right g5
              in term_loop d g6))
      else (Some left, g))"
  by pat_completeness auto
termination
proof (relation "measure (\<lambda>(left, g). pending g)", goal_cases)
  case 1
  show ?case by simp
next
  case (2 left g opk g1 x y z g2 d g3 g4 g5 g6)
  have "pending g6 = pending (snd (newTemp y))"
    using 2 by (metis pending_ops(2,5) snd_conv)
  also have "\<dots> = pending (snd (parseFactor g1))"
    using 2 by (metis pending_ops(6) snd_conv)
  also have "\<dots> \<le> pending g1" by (rule pending_parseFactor)
  also have "\<dots> < pending g" using 2 pending_advance [of g] by auto
  finally show ?case by simp
qed

declare term_loop.simps [simp del]

definition parseTerm :: "Gen \<Rightarrow> string option \<times> Gen" where
  "parseTerm g = (case parseFactor g of
                    (None, g1) \<Rightarrow> (None, g1)
                  | (Some left, g1) \<Rightarrow> term_loop left g1)"

lemma pending_term_loop: "pending (snd (term_loop left g)) \<le> pending g"
proof (induction left g rule: term_loop.induct)
  case (1 left g)
  show ?case
  proof (cases "tkind (cur g) = STAR \<or> tkind (cur g) = SLASH")
    case False
    then show ?thesis by (subst term_loop.simps) auto
  next
    case True
    define g1 where "g1 = advance g"
    have g1: "pending g1 < pending g" using True pending_advance [of g] by (auto simp: g1_def)
    obtain x y where pf: "parseFactor g1 = (x, y)" by (cases "parseFactor g1")
    have y: "pending y \<le> pending g1" using pending_parseFactor [of g1] pf by simp
    show ?thesis
    proof (cases x)
      case None
      then show ?thesis using True pf y g1
        by (subst term_loop.simps) (simp add: Let_def g1_def [symmetric])
    next
      case (Some right)
      obtain d g3 where nt: "newTemp y = (d, g3)" by (cases "newTemp y")
      define g6 where "g6 = release right (release left
        (emitBinary (if tkind (cur g) = STAR then MUL else DIV) d left right g3))"
      have p6: "pending g6 = pending y"
        using nt pending_ops(6) [of y] by (simp add: g6_def)
      have eq: "term_loop left g = term_loop d g6"
        using True pf Some nt
        by (subst term_loop.simps) (simp add: Let_def g1_def [symmetric] g6_def)
      have pf': "(x, y) = parseFactor (advance g)" using pf by (simp add: g1_def)
      have nt': "(d, g3) = newTemp y" using nt by simp
      have "pending (snd (term_loop d g6)) \<le> pending g6"
        unfolding g6_def
        by (rule "1.IH" [OF True refl refl pf' Some refl nt' refl refl refl])
      then show ?thesis using eq p6 y g1 by simp
    qed
  qed
qed

lemma pending_parseTerm: "pending (snd (parseTerm g)) \<le> pending g"
  using pending_parseFactor [of g] pending_term_loop [of _ "snd (parseFactor g)"]
  by (auto simp: parseTerm_def split: prod.splits option.splits) (metis order_trans)

function expr_loop :: "string \<Rightarrow> Gen \<Rightarrow> string option \<times> Gen" where
  "expr_loop left g =
     (if tkind (cur g) = PLUS \<or> tkind (cur g) = MINUS then
        (let opk = tkind (cur g); g1 = advance g in
         case parseTerm g1 of
           (None, g2) \<Rightarrow> (None, syntaxError ''Missing term after operator'' g2)
         | (Some right, g2) \<Rightarrow>
             (let (d, g3) = newTemp g2;
                  g4 = emitBinary (if opk = PLUS then ADD else SUB) d left right g3;
                  g5 = release left g4;
                  g6 = release right g5
              in expr_loop d g6))
      else (Some left, g))"
  by pat_completeness auto
termination
proof (relation "measure (\<lambda>(left, g). pending g)", goal_cases)
  case 1
  show ?case by simp
next
  case (2 left g opk g1 x y z g2 d g3 g4 g5 g6)
  have "pending g6 = pending (snd (newTemp y))"
    using 2 by (metis pending_ops(2,5) snd_conv)
  also have "\<dots> = pending (snd (parseTerm g1))"
    using 2 by (metis pending_ops(6) snd_conv)
  also have "\<dots> \<le> pending g1" by (rule pending_parseTerm)
  also have "\<dots> < pending g" using 2 pending_advance [of g] by auto
  finally show ?case by simp
qed

declare expr_loop.simps [simp del]

definition parseExpression :: "Gen \<Rightarrow> string option \<times> Gen" where
  "parseExpression g = (case parseTerm g of
                          (None, g1) \<Rightarrow> (None, g1)
                        | (Some left, g1) \<Rightarrow> expr_loop left g1)"

lemma pending_expr_loop: "pending (snd (expr_loop left g)) \<le> pending g"
proof (induction left g rule: expr_loop.induct)
  case (1 left g)
  show ?case
  proof (cases "tkind (cur g) = PLUS \<or> tkind (cur g) = MINUS")
    case False
    then show ?thesis by (subst expr_loop.simps) auto
  next
    case True
    define g1 where "g1 = advance g"
    have g1: "pending g1 < pending g" using True pending_advance [of g] by (auto simp: g1_def)
    obtain x y where pf: "parseTerm g1 = (x, y)" by (cases "parseTerm g1")
    have y: "pending y \<le> pending g1" using pending_parseTerm [of g1] pf by simp
    show ?thesis
    proof (cases x)
      case None
      then show ?thesis using True pf y g1
        by (subst expr_loop.simps) (simp add: Let_def g1_def [symmetric])
    next
      case (Some right)
      obtain d g3 where nt: "newTemp y = (d, g3)" by (cases "newTemp y")
      define g6 where "g6 = release right (release left
        (emitBinary (if tkind (cur g) = PLUS then ADD else SUB) d left right g3))"
      have p6: "pending g6 = pending y"
        using nt pending_ops(6) [of y] by (simp add: g6_def)
      have eq: "expr_loop left g = expr_loop d g6"
        using True pf Some nt
        by (subst expr_loop.simps) (simp add: Let_def g1_def [symmetric] g6_def)
      have pf': "(x, y) = parseTerm (advance g)" using pf by (simp add: g1_def)
      have nt': "(d, g3) = newTemp y" using nt by simp
      have "pending (snd (expr_loop d g6)) \<le> pending g6"
        unfolding g6_def
        by (rule "1.IH" [OF True refl refl pf' Some refl nt' refl refl refl])
      then show ?thesis using eq p6 y g1 by simp
    qed
  qed
qed

lemma pending_parseExpression: "pending (snd (parseExpression g)) \<le> pending g"
proof -
  obtain x y where pt: "parseTerm g = (x, y)" by (cases "parseTerm g")
  have y: "pending y \<le> pending g" using pending_parseTerm [of g] pt by simp
  show ?thesis
  proof (cases x)
    case None
    then show ?thesis using pt y by (simp add: parseExpression_def)
  next
    case (Some l)
    then have "parseExpression g = expr_loop l y" using pt by (simp add: parseExpression_def)
    then show ?thesis using pending_expr_loop [of l y] y by simp
  qed
qed

text \<open>The block "semantic: ensure lhs exists (or insert)" of \<^verbatim>\<open>parseStatement\<close>.\<close>

definition promote :: "int \<Rightarrow> SymbolEntry \<Rightarrow> SymbolEntry" where
  "promote lhsLine e =
     e\<lparr>kind := ''variable'', type := ''float'', is_dummy := False, decl_line := lhsLine\<rparr>"

definition ensureLhs :: "string \<Rightarrow> int \<Rightarrow> SymbolTable \<times> ErrorHandler \<Rightarrow> SymbolTable \<times> ErrorHandler" where
  "ensureLhs lhs lhsLine sh =
     (case lookup (fst sh) lhs of
        Some entry \<Rightarrow>
          (if is_dummy entry then snd (updateEntry lhs (promote lhsLine) sh) else sh)
      | None \<Rightarrow>
          snd (insert_entry (mkEntry lhs ''variable'' ''float'' (currentScope (fst sh)) lhsLine) sh))"

definition parseStatement :: "Gen \<Rightarrow> bool \<times> Gen" where
  "parseStatement g =
     (if tkind (cur g) \<noteq> IDENT then
        (False, syntaxError ''Expected identifier at start of statement'' g)
      else
        (let lhs = lexeme (cur g); lhsLine = tline (cur g); g1 = advance g in
         if tkind (cur g1) \<noteq> ASSIGN then
           (False, syntaxError ''Expected '=' after identifier'' g1)
         else
           (case parseExpression (advance g1) of
              (None, g3) \<Rightarrow> (False, syntaxError ''Invalid expression in assignment'' g3)
            | (Some rhsName, g3) \<Rightarrow>
                if tkind (cur g3) \<noteq> SEMICOLON then
                  (False, syntaxError ''Missing semicolon at end of statement'' g3)
                else
                  (let g4 = advance g3;
                       (st, h) = ensureLhs lhs lhsLine (sym g4, err g4);
                       g5 = emitAssign lhs rhsName (g4\<lparr>sym := st, err := h\<rparr>);
                       (st', h') = markUsed lhs (sym g5, err g5)
                   in (True, g5\<lparr>sym := st', err := h'\<rparr>)))))"

function skipToSemicolon :: "Gen \<Rightarrow> Gen" where
  "skipToSemicolon g =
     (if tkind (cur g) \<noteq> SEMICOLON \<and> tkind (cur g) \<noteq> END_OF_FILE
      then skipToSemicolon (advance g) else g)"
  by pat_completeness auto
termination
  by (relation "measure pending") (auto simp: pending_advance)

declare skipToSemicolon.simps [simp del]

text \<open>The body of the \<^verbatim>\<open>if (!parseStatement(out))\<close> branch of \<^verbatim>\<open>parseProgram\<close>.\<close>

definition recover :: "Gen \<Rightarrow> Gen" where
  "recover g =
     (let g1 = syntaxError ''Skipping to next ';' on parse error'' g;
          g2 = skipToSemicolon g1
      in if tkind (cur g2) = SEMICOLON then advance g2 else g2)"

lemma pending_skipToSemicolon: "pending (skipToSemicolon g) \<le> pending g"
proof (induction g rule: skipToSemicolon.induct)
  case (1 g)
  show ?case
  proof (cases "tkind (cur g) \<noteq> SEMICOLON \<and> tkind (cur g) \<noteq> END_OF_FILE")
    case True
    then have "pending (skipToSemicolon g) = pending (skipToSemicolon (advance g))"
      by (subst skipToSemicolon.simps) simp
    also have "\<dots> \<le> pending (advance g)" using 1 True by simp
    also have "\<dots> \<le> pending g" using True pending_advance [of g] by simp
    finally show ?thesis .
  next
    case False
    then show ?thesis by (subst skipToSemicolon.simps) auto
  qed
qed

lemma cur_skipToSemicolon:
  "tkind (cur (skipToSemicolon g)) = SEMICOLON \<or> tkind (cur (skipToSemicolon g)) = END_OF_FILE"
proof (induction g rule: skipToSemicolon.induct)
  case (1 g)
  show ?case
  proof (cases "tkind (cur g) \<noteq> SEMICOLON \<and> tkind (cur g) \<noteq> END_OF_FILE")
    case True
    then have "skipToSemicolon g = skipToSemicolon (advance g)"
      by (subst skipToSemicolon.simps) simp
    then show ?thesis using 1 True by simp
  next
    case False
    then have "skipToSemicolon g = g" by (subst skipToSemicolon.simps) auto
    then show ?thesis using False by auto
  qed
qed

lemma pending_recover_le: "pending (recover g) \<le> pending g"
proof -
  define g2 where "g2 = skipToSemicolon (syntaxError ''Skipping to next ';' on parse error'' g)"
  have a: "pending g2 \<le> pending g"
    unfolding g2_def
    using pending_skipToSemicolon [of "syntaxError ''Skipping to next ';' on parse error'' g"]
    by simp
  have b: "tkind (cur g2) = SEMICOLON \<Longrightarrow> pending (advance g2) < pending g2"
    by (rule pending_advance) simp
  have r: "recover g = (if tkind (cur g2) = SEMICOLON then advance g2 else g2)"
    by (simp add: recover_def Let_def g2_def)
  show ?thesis using a b by (cases "tkind (cur g2) = SEMICOLON") (simp_all add: r)
qed

lemma pending_recover_less:
  assumes "tkind (cur g) \<noteq> END_OF_FILE"
  shows "pending (recover g) < pending g"
proof -
  define g1 where "g1 = syntaxError ''Skipping to next ';' on parse error'' g"
  define g2 where "g2 = skipToSemicolon g1"
  have c1: "cur g1 = cur g" "pending g1 = pending g" by (simp_all add: g1_def)
  have a: "pending g2 \<le> pending g" unfolding g2_def using pending_skipToSemicolon [of g1] c1 by simp
  have b: "tkind (cur g2) = SEMICOLON \<Longrightarrow> pending (advance g2) < pending g2"
    by (rule pending_advance) simp
  have c: "tkind (cur g2) \<noteq> SEMICOLON \<Longrightarrow> pending g2 < pending g"
  proof -
    assume n: "tkind (cur g2) \<noteq> SEMICOLON"
    then have e: "tkind (cur g2) = END_OF_FILE" using cur_skipToSemicolon [of g1] by (simp add: g2_def)
    have "g2 \<noteq> g1" using e assms c1 by auto
    then have st: "tkind (cur g1) \<noteq> SEMICOLON \<and> tkind (cur g1) \<noteq> END_OF_FILE"
      unfolding g2_def by (subst (asm) skipToSemicolon.simps) (auto split: if_splits)
    then have "g2 = skipToSemicolon (advance g1)"
      unfolding g2_def by (subst skipToSemicolon.simps) simp
    then have "pending g2 \<le> pending (advance g1)" using pending_skipToSemicolon by simp
    also have "\<dots> < pending g1" using st pending_advance by simp
    finally show ?thesis using c1 by simp
  qed
  have r: "recover g = (if tkind (cur g2) = SEMICOLON then advance g2 else g2)"
    by (simp add: recover_def Let_def g2_def g1_def)
  show ?thesis using a b c by (cases "tkind (cur g2) = SEMICOLON") (simp_all add: r)
qed

lemma parseStatement_not_ident:
  "tkind (cur g) \<noteq> IDENT \<Longrightarrow>
   parseStatement g = (False, syntaxError ''Expected identifier at start of statement'' g)"
  by (simp add: parseStatement_def)

lemma pending_parseStatement:
  assumes i: "tkind (cur g) = IDENT"
  shows "pending (snd (parseStatement g)) < pending g"
proof -
  define g1 where "g1 = advance g"
  have p1: "pending g1 < pending g" unfolding g1_def using i by (intro pending_advance) simp
  show ?thesis
  proof (cases "tkind (cur g1) = ASSIGN")
    case False
    then have "snd (parseStatement g) = syntaxError ''Expected '=' after identifier'' g1"
      using i by (simp add: parseStatement_def Let_def g1_def)
    then show ?thesis using p1 by simp
  next
    case True
    define g2 where "g2 = advance g1"
    have p2: "pending g2 < pending g1" unfolding g2_def using True by (intro pending_advance) simp
    obtain x g3 where pe: "parseExpression g2 = (x, g3)" by (cases "parseExpression g2")
    have p3: "pending g3 \<le> pending g2" using pending_parseExpression [of g2] pe by simp
    show ?thesis
    proof (cases x)
      case None
      then have "snd (parseStatement g) = syntaxError ''Invalid expression in assignment'' g3"
        using i True pe by (simp add: parseStatement_def Let_def g1_def [symmetric] g2_def [symmetric])
      then show ?thesis using p1 p2 p3 by simp
    next
      case (Some rhs)
      show ?thesis
      proof (cases "tkind (cur g3) = SEMICOLON")
        case False
        then have "snd (parseStatement g) = syntaxError ''Missing semicolon at end of statement'' g3"
          using i True pe Some
          by (simp add: parseStatement_def Let_def g1_def [symmetric] g2_def [symmetric])
        then show ?thesis using p1 p2 p3 by simp
      next
        case s: True
        have p4: "pending (advance g3) < pending g3" using s by (intro pending_advance) simp
        have "pending (snd (parseStatement g)) = pending (advance g3)"
          using i True pe Some s
          by (simp add: parseStatement_def Let_def g1_def [symmetric] g2_def [symmetric] split_beta)
        then show ?thesis using p1 p2 p3 p4 by simp
      qed
    qed
  qed
qed

function parseProgram :: "Gen \<Rightarrow> bool \<times> Gen" where
  "parseProgram g =
     (if tkind (cur g) \<noteq> END_OF_FILE then
        (case parseStatement g of
           (True, g1) \<Rightarrow> parseProgram g1
         | (False, g1) \<Rightarrow> parseProgram (recover g1))
      else (True, g))"
  by pat_completeness auto
termination
proof (relation "measure pending", goal_cases)
  case 1
  show ?case by simp
next
  case (2 g x y)
  then have ps: "parseStatement g = (True, y)" by simp
  have "tkind (cur g) = IDENT"
  proof (rule ccontr)
    assume "tkind (cur g) \<noteq> IDENT"
    then show False using parseStatement_not_ident [of g] ps by simp
  qed
  then show ?case using pending_parseStatement [of g] ps by simp
next
  case (3 g x y)
  show ?case
  proof (cases "tkind (cur g) = IDENT")
    case True
    moreover have "snd (parseStatement g) = y" using 3 by (metis snd_conv)
    ultimately have "pending y < pending g" using pending_parseStatement [of g] by simp
    then show ?thesis using pending_recover_le [of y] by simp
  next
    case False
    moreover have "snd (parseStatement g) = y" using 3 by (metis snd_conv)
    ultimately have "y = syntaxError ''Expected identifier at start of statement'' g"
      using parseStatement_not_ident [of g] by simp
    then have "tkind (cur y) \<noteq> END_OF_FILE" "pending y = pending g" using 3 by simp_all
    then show ?thesis using pending_recover_less [of y] by simp
  qed
qed

declare parseProgram.simps [simp del]

definition generate :: "Gen \<Rightarrow> bool \<times> Gen" where
  "generate g = parseProgram g"

text \<open>The driver's use of the generator: a lexer constructed with or without the symbol
  table, \<^verbatim>\<open>setSource\<close>, the generator's constructor, \<^verbatim>\<open>generate\<close>.\<close>

definition run_generator :: "bool \<Rightarrow> SymbolTable \<Rightarrow> ErrorHandler \<Rightarrow> string \<Rightarrow> bool \<times> Gen" where
  "run_generator linked st h source = generate (newGen (setSource source (newLexer linked)) st h)"

definition newErrorHandler :: ErrorHandler where
  "newErrorHandler = \<lparr>errors = [], stopOnFatal = True\<rparr>"

subsection \<open>The generator only appends to the output and to the error list\<close>




lemma errors_reportError [simp]:
  "errors (reportError p m l c h) =
     errors h @ [\<lparr>phase = p, severity = ERROR, message = m, line = l, column = c, recoverable = True\<rparr>]"
  by (simp add: reportError_def)

lemma report_ERROR: "report p ERROR m l c True h = Some (reportError p m l c h)"
  by (simp add: report_def reportError_def Let_def)










lemma out_advance [simp]: "out (advance g) = out g"
  by (simp add: advance_def split_beta)













lemma out_skipToSemicolon [simp]: "out (skipToSemicolon g) = out g"
proof (induction g rule: skipToSemicolon.induct)
  case (1 g)
  show ?case
  proof (cases "tkind (cur g) \<noteq> SEMICOLON \<and> tkind (cur g) \<noteq> END_OF_FILE")
    case True
    then have "skipToSemicolon g = skipToSemicolon (advance g)"
      by (subst skipToSemicolon.simps) simp
    then show ?thesis using 1 True by simp
  next
    case False
    then have "skipToSemicolon g = g" by (subst skipToSemicolon.simps) auto
    then show ?thesis by simp
  qed
qed





subsection \<open>Recovery stops at the first statement terminator\<close>




section \<open>Dead code eliminator (dce.h, dce.cpp)\<close>

definition usesOf :: "TacInst \<Rightarrow> string list" where
  "usesOf i =
     (case op i of
        LOAD_CONST \<Rightarrow> []
      | OP_ASSIGN \<Rightarrow> (if arg1 i \<noteq> [] then [arg1 i] else [])
      | NOP \<Rightarrow> []
      | _ \<Rightarrow> (if arg1 i \<noteq> [] then [arg1 i] else []) @ (if arg2 i \<noteq> [] then [arg2 i] else []))"

text \<open>The set \<^verbatim>\<open>declared\<close>: the destinations that are not empty and do not begin with
  the letter t.\<close>

definition declared :: "TacInst list \<Rightarrow> string set" where
  "declared tac = set (filter (\<lambda>d. d \<noteq> [] \<and> hd d \<noteq> CHR ''t'') (map dest tac))"

definition unusedSet :: "SymbolTable \<Rightarrow> string set" where
  "unusedSet st = set (map name (getUnusedEntries st))"

definition initialLive :: "TacInst list \<Rightarrow> SymbolTable \<Rightarrow> string set" where
  "initialLive tac st = Set.filter (\<lambda>n. n \<notin> unusedSet st) (declared tac)"

text \<open>
  The backward traversal \<^verbatim>\<open>for (int i = (int)tac.size()-1; i >= 0; --i)\<close>: the first
  argument of \<open>scan\<close> is \<^verbatim>\<open>i + 1\<close>, the state is the set \<^verbatim>\<open>live\<close> and the vector
  \<^verbatim>\<open>keep\<close>.
\<close>

fun scan :: "nat \<Rightarrow> TacInst list \<Rightarrow> string set \<times> bool list \<Rightarrow> string set \<times> bool list" where
  "scan 0 tac lk = lk"
| "scan (Suc i) tac lk =
     (let inst = tac ! i; def = dest inst; live = fst lk; keep = snd lk in
      if def \<noteq> [] \<and> def \<in> live
      then scan i tac (live \<union> set (filter (\<lambda>u. u \<noteq> []) (usesOf inst)), keep[i := True])
      else scan i tac (live, keep))"

definition keepFlags :: "TacInst list \<Rightarrow> SymbolTable \<Rightarrow> bool list" where
  "keepFlags tac st =
     snd (scan (length tac) tac (initialLive tac st, replicate (length tac) False))"

definition eliminate :: "TacInst list \<Rightarrow> SymbolTable \<Rightarrow> TacInst list" where
  "eliminate tac st = map fst (filter snd (zip tac (keepFlags tac st)))"

text \<open>
  The eliminator as the specification words it: the live set is seeded with every named,
  non-temporary destination of the sequence that the unused-entries report does not list; the
  instructions are scanned from the last to the first, an instruction is kept exactly when its
  destination is live at that point, and then every name it reads becomes live; the kept
  instructions come out in their original order. What counts as a temporary is the parameter
  \<open>is_temp\<close>. The backward scan runs over the reversed sequence, so the head of the list is
  the last instruction.
\<close>

definition seed_claimed :: "(string \<Rightarrow> bool) \<Rightarrow> TacInst list \<Rightarrow> SymbolTable \<Rightarrow> string set" where
  "seed_claimed is_temp tac st =
     Set.filter (\<lambda>d. d \<noteq> [] \<and> \<not> is_temp d \<and> d \<notin> name ` set (getUnusedEntries st))
       (dest ` set tac)"

fun backward_scan :: "string set \<Rightarrow> TacInst list \<Rightarrow> TacInst list" where
  "backward_scan live [] = []"
| "backward_scan live (i # is) =
     (if dest i \<in> live then i # backward_scan (live \<union> set (usesOf i)) is
      else backward_scan live is)"

definition eliminate_claimed :: "(string \<Rightarrow> bool) \<Rightarrow> TacInst list \<Rightarrow> SymbolTable \<Rightarrow> TacInst list" where
  "eliminate_claimed is_temp tac st = rev (backward_scan (seed_claimed is_temp tac st) (rev tac))"

text \<open>The names that the generator mints: the letter t followed by the decimal digits of the
  counter. A user variable such as \<^verbatim>\<open>temp\<close> or \<^verbatim>\<open>total\<close> does not have this shape.\<close>

definition minted_shape :: "string \<Rightarrow> bool" where
  "minted_shape d =
     (case d of [] \<Rightarrow> False | c # ds \<Rightarrow> c = CHR ''t'' \<and> ds \<noteq> [] \<and> list_all isdigit ds)"

text \<open>The eliminator's own test for a temporary: the name begins with the letter t.\<close>

definition begins_with_t :: "string \<Rightarrow> bool" where
  "begins_with_t d = (d \<noteq> [] \<and> hd d = CHR ''t'')"

text \<open>The keep flags of the backward scan, as a function of the reversed sequence.\<close>

fun bflags :: "string set \<Rightarrow> TacInst list \<Rightarrow> bool list" where
  "bflags live [] = []"
| "bflags live (i # is) =
     (if dest i \<in> live then True # bflags (live \<union> set (usesOf i)) is
      else False # bflags live is)"

lemma usesOf_nonempty: "[] \<notin> set (usesOf i)"
  by (cases "op i") (auto simp: usesOf_def)

lemma filter_usesOf [simp]: "filter (\<lambda>u. u \<noteq> []) (usesOf i) = usesOf i"
  using usesOf_nonempty [of i] by (induction "usesOf i") (auto simp: filter_id_conv)

lemma length_bflags [simp]: "length (bflags live xs) = length xs"
  by (induction xs arbitrary: live) auto

lemma scan_bflags:
  "[] \<notin> live \<Longrightarrow> i \<le> length tac \<Longrightarrow> length keep = length tac \<Longrightarrow> \<forall>k<i. \<not> keep ! k \<Longrightarrow>
   snd (scan i tac (live, keep)) = rev (bflags live (rev (take i tac))) @ drop i keep"
proof (induction i arbitrary: live keep)
  case 0
  then show ?case by simp
next
  case (Suc i)
  have il: "i < length tac" using Suc.prems by simp
  have tk: "rev (take (Suc i) tac) = tac ! i # rev (take i tac)"
    using il by (simp add: take_Suc_conv_app_nth)
  show ?case
  proof (cases "dest (tac ! i) \<in> live")
    case True
    then have ne: "dest (tac ! i) \<noteq> []" using Suc.prems(1) by auto
    let ?live = "live \<union> set (usesOf (tac ! i))"
    have s: "scan (Suc i) tac (live, keep) = scan i tac (?live, keep[i := True])"
      using True ne by (simp add: Let_def)
    have "snd (scan i tac (?live, keep[i := True]))
        = rev (bflags ?live (rev (take i tac))) @ drop i (keep[i := True])"
      using Suc.prems usesOf_nonempty [of "tac ! i"] by (intro Suc.IH) auto
    moreover have "drop i (keep[i := True]) = True # drop (Suc i) keep"
      using il Suc.prems(3) by (simp add: upd_conv_take_nth_drop)
    ultimately show ?thesis unfolding s tk using True by simp
  next
    case False
    have s: "scan (Suc i) tac (live, keep) = scan i tac (live, keep)"
      using False by (simp add: Let_def)
    have "snd (scan i tac (live, keep)) = rev (bflags live (rev (take i tac))) @ drop i keep"
      using Suc.prems by (intro Suc.IH) auto
    moreover have "drop i keep = False # drop (Suc i) keep"
      using il Suc.prems(3,4) by (metis Cons_nth_drop_Suc lessI)
    ultimately show ?thesis unfolding s tk using False by simp
  qed
qed

lemma initialLive_nonempty: "[] \<notin> initialLive tac st"
  by (auto simp: initialLive_def declared_def)

lemma keepFlags_bflags: "keepFlags tac st = rev (bflags (initialLive tac st) (rev tac))"
  unfolding keepFlags_def
  by (subst scan_bflags) (simp_all add: initialLive_nonempty)

lemma backward_scan_bflags:
  "backward_scan live xs = map fst (filter snd (zip xs (bflags live xs)))"
  by (induction xs arbitrary: live) auto

lemma eliminate_backward:
  "eliminate tac st = rev (backward_scan (initialLive tac st) (rev tac))"
proof -
  let ?B = "bflags (initialLive tac st) (rev tac)"
  have "zip tac (rev ?B) = rev (zip (rev tac) ?B)"
    using zip_rev [of "rev tac" ?B] by simp
  then show ?thesis
    by (simp add: eliminate_def keepFlags_bflags backward_scan_bflags rev_map rev_filter)
qed

lemma initialLive_seed: "initialLive tac st = seed_claimed begins_with_t tac st"
  by (auto simp: initialLive_def seed_claimed_def declared_def unusedSet_def begins_with_t_def)

lemma backward_scan_idem:
  "(\<forall>i \<in> set (backward_scan L xs). dest i \<in> L \<longrightarrow> dest i \<in> L') \<Longrightarrow>
   backward_scan L' (backward_scan L xs) = backward_scan L xs"
proof (induction xs arbitrary: L L')
  case Nil
  then show ?case by simp
next
  case (Cons x xs)
  show ?case
  proof (cases "dest x \<in> L")
    case True
    then have x': "dest x \<in> L'" using Cons.prems by simp
    have "backward_scan (L' \<union> set (usesOf x)) (backward_scan (L \<union> set (usesOf x)) xs)
        = backward_scan (L \<union> set (usesOf x)) xs"
      using Cons.prems True by (intro Cons.IH) auto
    then show ?thesis using True x' by simp
  next
    case False
    then show ?thesis using Cons.prems Cons.IH [of L L'] by simp
  qed
qed

lemma backward_scan_subset: "set (backward_scan L xs) \<subseteq> set xs"
  by (induction xs arbitrary: L) auto

lemma bflags_live:
  "dest (xs ! b) \<in> live \<Longrightarrow> b < length xs \<Longrightarrow> bflags live xs ! b"
proof (induction xs arbitrary: live b)
  case Nil
  then show ?case by simp
next
  case (Cons x xs)
  then show ?case by (cases b) auto
qed

lemma bflags_per_name:
  "a < b \<Longrightarrow> b < length xs \<Longrightarrow> bflags live xs ! a \<Longrightarrow> dest (xs ! b) = dest (xs ! a) \<Longrightarrow>
   bflags live xs ! b"
proof (induction xs arbitrary: live a b)
  case Nil
  then show ?case by simp
next
  case (Cons x xs)
  obtain b' where b: "b = Suc b'" using Cons.prems(1) by (cases b) auto
  show ?case
  proof (cases a)
    case 0
    with Cons.prems have l: "dest x \<in> live" by (auto split: if_splits)
    have "bflags (live \<union> set (usesOf x)) xs ! b'"
      using Cons.prems l 0 b by (intro bflags_live) auto
    then show ?thesis using l b by simp
  next
    case (Suc a')
    show ?thesis using Cons.prems Suc b Cons.IH [of a' b'] by (auto split: if_splits)
  qed
qed

lemma bflags_reason:
  "b < length xs \<Longrightarrow> bflags live xs ! b \<Longrightarrow>
   dest (xs ! b) \<in> live \<or> (\<exists>a<b. bflags live xs ! a \<and> dest (xs ! b) \<in> set (usesOf (xs ! a)))"
proof (induction xs arbitrary: live b)
  case Nil
  then show ?case by simp
next
  case (Cons x xs)
  show ?case
  proof (cases b)
    case 0
    with Cons.prems show ?thesis by (auto split: if_splits)
  next
    case (Suc b')
    show ?thesis
    proof (cases "dest x \<in> live")
      case True
      then have "bflags (live \<union> set (usesOf x)) xs ! b'" using Cons.prems Suc by simp
      from Cons.IH [OF _ this] Cons.prems Suc
      consider "dest (xs ! b') \<in> live" | "dest (xs ! b') \<in> set (usesOf x)"
        | a where "a < b'" "bflags (live \<union> set (usesOf x)) xs ! a" "dest (xs ! b') \<in> set (usesOf (xs ! a))"
        by auto
      then show ?thesis
      proof cases
        case 1 then show ?thesis using Suc by simp
      next
        case 2
        then have "0 < b \<and> bflags live (x # xs) ! 0 \<and> dest ((x # xs) ! b) \<in> set (usesOf ((x # xs) ! 0))"
          using True Suc by simp
        then show ?thesis by blast
      next
        case 3
        then have "Suc a < b \<and> bflags live (x # xs) ! Suc a \<and> dest ((x # xs) ! b) \<in> set (usesOf ((x # xs) ! Suc a))"
          using True Suc by simp
        then show ?thesis by blast
      qed
    next
      case False
      then have "bflags live xs ! b'" using Cons.prems Suc by simp
      from Cons.IH [OF _ this] Cons.prems Suc
      consider "dest (xs ! b') \<in> live"
        | a where "a < b'" "bflags live xs ! a" "dest (xs ! b') \<in> set (usesOf (xs ! a))"
        by auto
      then show ?thesis
      proof cases
        case 1 then show ?thesis using Suc by simp
      next
        case 2
        then have "Suc a < b \<and> bflags live (x # xs) ! Suc a \<and> dest ((x # xs) ! b) \<in> set (usesOf ((x # xs) ! Suc a))"
          using False Suc by simp
        then show ?thesis by blast
      qed
    qed
  qed
qed

lemma scan_live_grows: "fst lk \<subseteq> fst (scan i tac lk)"
proof (induction i arbitrary: lk)
  case 0
  then show ?case by simp
next
  case (Suc i)
  show ?case
  proof (cases "dest (tac ! i) \<noteq> [] \<and> dest (tac ! i) \<in> fst lk")
    case True
    then have "scan (Suc i) tac lk = scan i tac (fst lk \<union> set (usesOf (tac ! i)), (snd lk)[i := True])"
      by (simp add: Let_def)
    then show ?thesis using Suc [of "(fst lk \<union> set (usesOf (tac ! i)), (snd lk)[i := True])"] by auto
  next
    case False
    then have "scan (Suc i) tac lk = scan i tac (fst lk, snd lk)"
      by (auto simp: Let_def)
    then show ?thesis using Suc [of lk] by simp
  qed
qed

lemma keepFlags_nth:
  assumes "i < length tac"
  shows "keepFlags tac st ! i = bflags (initialLive tac st) (rev tac) ! (length tac - Suc i)"
  using assms by (simp add: keepFlags_bflags rev_nth)

lemma keepFlags_per_name:
  assumes "i < j" "j < length tac" "dest (tac ! i) = dest (tac ! j)" "keepFlags tac st ! j"
  shows "keepFlags tac st ! i"
proof -
  let ?n = "length tac"
  have i: "i < ?n" using assms by simp
  have a: "bflags (initialLive tac st) (rev tac) ! (?n - Suc j)"
    using assms keepFlags_nth [of j tac st] by simp
  have "bflags (initialLive tac st) (rev tac) ! (?n - Suc i)"
  proof (rule bflags_per_name [OF _ _ a])
    show "?n - Suc j < ?n - Suc i" using assms by simp
    show "?n - Suc i < length (rev tac)" using i by simp
    show "dest (rev tac ! (?n - Suc i)) = dest (rev tac ! (?n - Suc j))"
      using assms i by (simp add: rev_nth)
  qed
  then show ?thesis using keepFlags_nth [OF i, of st] by simp
qed

lemma keepFlags_reason:
  assumes "i < length tac" "keepFlags tac st ! i" "dest (tac ! i) \<notin> initialLive tac st"
  shows "\<exists>j. i < j \<and> j < length tac \<and> keepFlags tac st ! j \<and> dest (tac ! i) \<in> set (usesOf (tac ! j))"
proof -
  let ?n = "length tac"
  let ?b = "?n - Suc i"
  have b: "?b < length (rev tac)" using assms by simp
  have f: "bflags (initialLive tac st) (rev tac) ! ?b"
    using assms keepFlags_nth [of i tac st] by simp
  have d: "dest (rev tac ! ?b) = dest (tac ! i)" using assms by (simp add: rev_nth)
  from bflags_reason [OF b f] d assms(3)
  obtain a where a: "a < ?b" "bflags (initialLive tac st) (rev tac) ! a"
      "dest (tac ! i) \<in> set (usesOf (rev tac ! a))" by auto
  let ?j = "?n - Suc a"
  have "i < ?j" "?j < ?n" using a assms by auto
  moreover have "keepFlags tac st ! ?j"
    using a \<open>?j < ?n\<close> keepFlags_nth [of ?j tac st] by simp
  moreover have "rev tac ! a = tac ! ?j" using a assms by (simp add: rev_nth)
  ultimately show ?thesis using a by auto
qed

lemma subseq_keep: "length bs = length xs \<Longrightarrow> subseq (map fst (filter snd (zip xs bs))) xs"
proof -
  assume l: "length bs = length xs"
  have "subseq (map fst (filter snd (zip xs bs))) (map fst (zip xs bs))"
    by (intro subseq_map subseq_filter_left)
  then show ?thesis using l by simp
qed

lemma length_keepFlags [simp]: "length (keepFlags tac st) = length tac"
  by (simp add: keepFlags_bflags)

text \<open>
  For every instruction sequence and every symbol table, the loop of \<^verbatim>\<open>eliminate\<close> with its
  \<^verbatim>\<open>keep\<close> vector is the seeded backward scan, with the names that begin with the letter t
  in the place of the temporaries; the result is a subsequence of the input. The source's
  extra test that the destination is not empty never decides anything, because the empty name
  is never live.
\<close>

lemma eliminate_scans_backwards:
  "eliminate tac st = eliminate_claimed begins_with_t tac st \<and> subseq (eliminate tac st) tac"
proof
  show "eliminate tac st = eliminate_claimed begins_with_t tac st"
    by (simp add: eliminate_backward eliminate_claimed_def initialLive_seed)
  show "subseq (eliminate tac st) tac"
    by (simp add: eliminate_def subseq_keep)
qed

lemma initialLive_named: "d \<in> initialLive tac st \<Longrightarrow> d \<noteq> [] \<and> hd d \<noteq> CHR ''t''"
  by (auto simp: initialLive_def declared_def)

section \<open>Facts about the symbol table operations\<close>

lemma map_of_frame_put: "map_of (frame_put k v f) = (map_of f)(k \<mapsto> v)"
  by (induction f) (auto simp: fun_eq_iff)

lemma keys_frame_put: "map_of f k \<noteq> None \<Longrightarrow> map fst (frame_put k v f) = map fst f"
  by (induction f) auto

lemma scopes_set_back [simp]: "scopes (set_back f st) = butlast (scopes st) @ [f]"
  by (simp add: set_back_def)

lemma nextMemoryIndex_set_back [simp]: "nextMemoryIndex (set_back f st) = nextMemoryIndex st"
  by (simp add: set_back_def)

lemma lookupLocal_set_back [simp]: "lookupLocal (set_back f st) = map_of f"
  by (simp add: lookupLocal_def fun_eq_iff)

lemma find_scope_last:
  "fs \<noteq> [] \<Longrightarrow> map_of (last fs) n \<noteq> None \<Longrightarrow> find_scope (length fs) fs n = Some (length fs - 1)"
proof -
  assume a: "fs \<noteq> []" and b: "map_of (last fs) n \<noteq> None"
  obtain k where k: "length fs = Suc k" using a by (cases fs) auto
  then have "fs ! k = last fs" using a by (simp add: last_conv_nth)
  then show ?thesis using b k by simp
qed

lemma lookupLocal_lookup: "lookupLocal st n = Some e \<Longrightarrow> lookup st n = Some e"
proof -
  assume a: "lookupLocal st n = Some e"
  then have ne: "scopes st \<noteq> []" and m: "map_of (last (scopes st)) n = Some e"
    by (auto simp: lookupLocal_def split: if_splits)
  have "find_scope (length (scopes st)) (scopes st) n = Some (length (scopes st) - 1)"
    using ne m by (intro find_scope_last) auto
  then show ?thesis using ne m by (simp add: lookup_def last_conv_nth)
qed

lemma reportError_neq: "reportError p m l c h \<noteq> h"
proof
  assume "reportError p m l c h = h"
  then have "errors (reportError p m l c h) = errors h" by simp
  then show False by simp
qed

lemma insert_entry_duplicate:
  "lookupLocal st (name e) = Some old \<Longrightarrow>
   insert_entry e (st, h) = (False, st, reportDuplicate old e h)"
  by (auto simp: insert_entry_def lookupLocal_def Let_def split: if_splits)

lemma insert_entry_empty: "scopes st = [] \<Longrightarrow> insert_entry e (st, h) = (False, st, h)"
  by (simp add: insert_entry_def)

lemma name_assignAddr [simp]: "name (fst (assignAddr e n)) = name e"
  by (simp add: assignAddr_def)

lemma insert_entry_fresh:
  "scopes st \<noteq> [] \<Longrightarrow> lookupLocal st (name e) = None \<Longrightarrow>
   insert_entry e (st, h) =
     (True,
      set_back (frame_put (name e) (fst (assignAddr (e\<lparr>scopeLevel := currentScope st\<rparr>) (nextMemoryIndex st)))
                 (last (scopes st)))
        (st\<lparr>nextMemoryIndex := snd (assignAddr (e\<lparr>scopeLevel := currentScope st\<rparr>) (nextMemoryIndex st))\<rparr>),
      h)"
  by (simp add: insert_entry_def lookupLocal_def Let_def split_beta)

lemma updateEntry_local:
  "lookupLocal st n = Some e \<Longrightarrow>
   updateEntry n u (st, h) = (True, set_back (frame_put n (u e) (last (scopes st))) st, h)"
  by (simp add: updateEntry_def)

lemma ensureLhs_local_dummy:
  "lookupLocal st lhs = Some e \<Longrightarrow> is_dummy e \<Longrightarrow>
   ensureLhs lhs ln (st, h) = (set_back (frame_put lhs (promote ln e) (last (scopes st))) st, h)"
  by (simp add: ensureLhs_def lookupLocal_lookup updateEntry_local)

lemma ensureLhs_concrete:
  "lookup st lhs = Some e \<Longrightarrow> \<not> is_dummy e \<Longrightarrow> ensureLhs lhs ln (st, h) = (st, h)"
  by (simp add: ensureLhs_def)

lemma find_scope_Some:
  "find_scope k fs n = Some i \<Longrightarrow>
   i < k \<and> map_of (fs ! i) n \<noteq> None \<and> (\<forall>j. i < j \<and> j < k \<longrightarrow> map_of (fs ! j) n = None)"
proof (induction k)
  case 0
  then show ?case by simp
next
  case (Suc k)
  show ?case
  proof (cases "map_of (fs ! k) n \<noteq> None")
    case True
    then have "i = k" using Suc.prems by simp
    then show ?thesis using True by auto
  next
    case False
    then have "find_scope k fs n = Some i" using Suc.prems by simp
    from Suc.IH [OF this] show ?thesis using False
      by (auto simp: less_Suc_eq)
  qed
qed

lemma find_scope_first:
  "i < k \<Longrightarrow> map_of (fs ! i) n \<noteq> None \<Longrightarrow> (\<forall>j. i < j \<and> j < k \<longrightarrow> map_of (fs ! j) n = None) \<Longrightarrow>
   find_scope k fs n = Some i"
proof (induction k)
  case 0
  then show ?case by simp
next
  case (Suc k)
  show ?case
  proof (cases "i = k")
    case True
    then show ?thesis using Suc.prems by simp
  next
    case False
    then have ik: "i < k" using Suc.prems by simp
    have "map_of (fs ! k) n = None" using Suc.prems ik by simp
    moreover have "find_scope k fs n = Some i" using Suc.prems ik by (intro Suc.IH) auto
    ultimately show ?thesis by simp
  qed
qed

lemma markUsed_found:
  assumes "lookup st n = Some e"
  shows "\<exists>i<length (scopes st).
           map_of (scopes st ! i) n = Some e \<and>
           (\<forall>j. i < j \<and> j < length (scopes st) \<longrightarrow> map_of (scopes st ! j) n = None) \<and>
           markUsed n (st, h) =
             (st\<lparr>scopes := (scopes st)[i := frame_put n (e\<lparr>is_used := True\<rparr>) (scopes st ! i)]\<rparr>, h)"
proof -
  obtain i where i: "find_scope (length (scopes st)) (scopes st) n = Some i"
    using assms by (cases "find_scope (length (scopes st)) (scopes st) n") (auto simp: lookup_def)
  then have m: "map_of (scopes st ! i) n = Some e" using assms by (simp add: lookup_def)
  have "markUsed n (st, h) =
      (st\<lparr>scopes := (scopes st)[i := frame_put n (e\<lparr>is_used := True\<rparr>) (scopes st ! i)]\<rparr>, h)"
    using i m by (simp add: markUsed_def)
  then show ?thesis using find_scope_Some [OF i] m by blast
qed

lemma list_update_last: "xs \<noteq> [] \<Longrightarrow> xs[length xs - Suc 0 := x] = butlast xs @ [x]"
  by (induction xs rule: rev_induct) auto

lemma markUsed_local:
  assumes "lookupLocal st n = Some e"
  shows "markUsed n (st, h) = (set_back (frame_put n (e\<lparr>is_used := True\<rparr>) (last (scopes st))) st, h)"
proof -
  have ne: "scopes st \<noteq> []" and m: "map_of (last (scopes st)) n = Some e"
    using assms by (auto simp: lookupLocal_def split: if_splits)
  have f: "find_scope (length (scopes st)) (scopes st) n = Some (length (scopes st) - 1)"
    using ne m by (intro find_scope_last) auto
  have l: "scopes st ! (length (scopes st) - 1) = last (scopes st)"
    using ne by (simp add: last_conv_nth)
  show ?thesis using f m l ne by (simp add: markUsed_def set_back_def list_update_last)
qed

lemma lookup_marked:
  assumes "i < length (scopes st)" "map_of (scopes st ! i) n = Some e"
    "\<forall>j. i < j \<and> j < length (scopes st) \<longrightarrow> map_of (scopes st ! j) n = None"
  shows "lookup (st\<lparr>scopes := (scopes st)[i := frame_put n v (scopes st ! i)]\<rparr>) n = Some v \<and>
         map (map fst) ((scopes st)[i := frame_put n v (scopes st ! i)]) = map (map fst) (scopes st)"
proof -
  let ?fs = "(scopes st)[i := frame_put n v (scopes st ! i)]"
  have a: "map_of (?fs ! i) n = Some v" using assms(1) by (simp add: map_of_frame_put)
  have b: "\<forall>j. i < j \<and> j < length ?fs \<longrightarrow> map_of (?fs ! j) n = None" using assms(3) by simp
  have "find_scope (length ?fs) ?fs n = Some i"
    using assms(1) a b by (intro find_scope_first) auto
  then have l: "lookup (st\<lparr>scopes := ?fs\<rparr>) n = Some v" using a by (simp add: lookup_def)
  have "map fst (frame_put n v (scopes st ! i)) = map fst (scopes st ! i)"
    using assms(2) by (simp add: keys_frame_put)
  then have "map (map fst) ?fs = (map (map fst) (scopes st))[i := map fst (scopes st ! i)]"
    by (simp add: map_update)
  also have "\<dots> = map (map fst) (scopes st)"
    using assms(1) by (metis list_update_id map_update)
  finally show ?thesis using l by simp
qed

text \<open>
  The state in which a statement that parses reaches its block "semantic: ensure lhs exists (or
  insert)": the identifier and the \<^verbatim>\<open>=\<close> have been consumed, the expression has been parsed
  and the semicolon has been consumed. From there the statement runs the declaration step,
  appends the assignment and marks the left-hand name used.
\<close>

definition at_declaration :: "Gen \<Rightarrow> Gen" where
  "at_declaration g = advance (snd (parseExpression (advance (advance g))))"

lemma parseStatement_success:
  assumes "fst (parseStatement g)"
  shows "\<exists>rhs. fst (parseExpression (advance (advance g))) = Some rhs \<and>
           sym (snd (parseStatement g)) =
             fst (markUsed (lexeme (cur g))
                    (ensureLhs (lexeme (cur g)) (tline (cur g))
                       (sym (at_declaration g), err (at_declaration g)))) \<and>
           err (snd (parseStatement g)) =
             snd (markUsed (lexeme (cur g))
                    (ensureLhs (lexeme (cur g)) (tline (cur g))
                       (sym (at_declaration g), err (at_declaration g)))) \<and>
           out (snd (parseStatement g)) =
             out (at_declaration g) @
               [newInst\<lparr>op := OP_ASSIGN, dest := lexeme (cur g), arg1 := rhs\<rparr>]"
proof -
  obtain r g3 where pe: "parseExpression (advance (advance g)) = (r, g3)"
    by (cases "parseExpression (advance (advance g))")
  obtain st h where el: "ensureLhs (lexeme (cur g)) (tline (cur g)) (sym (advance g3), err (advance g3)) = (st, h)"
    by (cases "ensureLhs (lexeme (cur g)) (tline (cur g)) (sym (advance g3), err (advance g3))")
  obtain st' h' where mu: "markUsed (lexeme (cur g)) (st, h) = (st', h')"
    by (cases "markUsed (lexeme (cur g)) (st, h)")
  show ?thesis
    using assms pe el mu
    by (auto simp: parseStatement_def at_declaration_def Let_def emitAssign_def syntaxError_def
             split: if_splits option.splits prod.splits)
qed

section \<open>Facts about the temporaries\<close>

text \<open>\<^verbatim>\<open>newTemp\<close> pops the pool when it can and mints from the counter otherwise; an
  operand is pushed exactly when its name begins with the letter t; every minted name begins
  with that letter.\<close>

lemma newTemp_pool_first:
  "freeTemps g = t # ts \<Longrightarrow> newTemp g = (t, g\<lparr>freeTemps := ts\<rparr>)"
  by (simp add: newTemp_def)

lemma newTemp_mints:
  "freeTemps g = [] \<Longrightarrow>
   newTemp g = (''t'' @ to_string (tempCounter g), g\<lparr>tempCounter := tempCounter g + 1\<rparr>)"
  by (simp add: newTemp_def)

lemma newTemp_minted_name:
  "freeTemps g = [] \<Longrightarrow> fst (newTemp g) \<noteq> [] \<and> hd (fst (newTemp g)) = CHR ''t''"
  by (simp add: newTemp_def)

lemma release_pushes_iff:
  "freeTemps (release x g) = (if x \<noteq> [] \<and> hd x = CHR ''t'' then x # freeTemps g else freeTemps g)"
  by (simp add: release_def)

text \<open>A name minted from a counter that is not negative has the shape t<digits>.\<close>

lemma isdigit_digit_char_0_9:
  "list_all (\<lambda>d. isdigit (digit_char d)) [0, 1, 2, 3, 4, 5, 6, 7, 8, 9]"
  by code_simp

lemma isdigit_digit_char: "0 \<le> d \<Longrightarrow> d < 10 \<Longrightarrow> isdigit (digit_char d)"
proof -
  assume "0 \<le> d" "d < 10"
  then have "d = 0 \<or> d = 1 \<or> d = 2 \<or> d = 3 \<or> d = 4 \<or> d = 5 \<or> d = 6 \<or> d = 7 \<or> d = 8 \<or> d = 9"
    by arith
  then show ?thesis using isdigit_digit_char_0_9 by (elim disjE) simp_all
qed

lemma dec_digits_are_digits:
  "0 \<le> n \<Longrightarrow> dec_digits n \<noteq> [] \<and> list_all isdigit (dec_digits n)"
proof (induction n rule: dec_digits.induct)
  case (1 n)
  show ?case
  proof (cases "n < 10")
    case True
    then show ?thesis using 1 by (subst (1 2) dec_digits.simps) (simp add: isdigit_digit_char)
  next
    case False
    then have "dec_digits (n div 10) \<noteq> [] \<and> list_all isdigit (dec_digits (n div 10))"
      using 1 by simp
    moreover have "isdigit (digit_char (n mod 10))" by (intro isdigit_digit_char) simp_all
    ultimately show ?thesis using False by (subst (1 2) dec_digits.simps) simp
  qed
qed

lemma newTemp_minted_shape:
  "freeTemps g = [] \<Longrightarrow> 0 \<le> tempCounter g \<Longrightarrow> minted_shape (fst (newTemp g))"
  using dec_digits_are_digits [of "tempCounter g"]
  by (simp add: newTemp_def minted_shape_def to_string_def)

section \<open>Example programs, tables and instruction sequences\<close>

definition x_sum_tac :: "TacInst list" where
  "x_sum_tac =
     [newInst\<lparr>op := LOAD_CONST, dest := ''t0'', arg1Literal := ''1.5''\<rparr>,
      newInst\<lparr>op := LOAD_CONST, dest := ''t1'', arg1Literal := ''2.0''\<rparr>,
      newInst\<lparr>op := ADD, dest := ''t2'', arg1 := ''t0'', arg2 := ''t1''\<rparr>,
      newInst\<lparr>op := OP_ASSIGN, dest := ''x'', arg1 := ''t2''\<rparr>]"

text \<open>The sequence \<^verbatim>\<open>t1 = a; t1 = b; y = t1\<close>: the first definition of \<^verbatim>\<open>t1\<close> is
  overwritten before any instruction reads it, and it is kept all the same.\<close>

definition shadowed_tac :: "TacInst list" where
  "shadowed_tac =
     [newInst\<lparr>op := OP_ASSIGN, dest := ''t1'', arg1 := ''a''\<rparr>,
      newInst\<lparr>op := OP_ASSIGN, dest := ''t1'', arg1 := ''b''\<rparr>,
      newInst\<lparr>op := OP_ASSIGN, dest := ''y'', arg1 := ''t1''\<rparr>]"

text \<open>
  The program \<^verbatim>\<open>temp = 1.0;\<close> leaves \<^verbatim>\<open>temp\<close> marked used in the table, and the
  eliminator drops both of its instructions; in \<^verbatim>\<open>temp = 1.0; x = temp;\<close> the assignment to
  \<^verbatim>\<open>temp\<close> (position 1) survives because the kept assignment to \<^verbatim>\<open>x\<close> (position 2) reads it.
\<close>

definition temp_run :: "string \<Rightarrow> TacInst list \<times> SymbolTable" where
  "temp_run source =
     (case run_generator True newSymbolTable newErrorHandler source of
        (ok, g) \<Rightarrow> (out g, sym g))"

lemma temp_alone:
  "(case temp_run ''temp = 1.0;'' of
      (tac, st) \<Rightarrow> map_option is_used (lookup st ''temp'') = Some True \<and> length tac = 2 \<and>
                   eliminate tac st = [])"
  by code_simp

lemma temp_read:
  "(case temp_run ''temp = 1.0; x = temp;'' of
      (tac, st) \<Rightarrow> 1 < length tac \<and> dest (tac ! 1) = ''temp'' \<and> keepFlags tac st ! 1 \<and>
                   map_option is_used (lookup st ''temp'') = Some True)"
  by code_simp












text \<open>A table with \<^verbatim>\<open>x\<close> declared at line 5 in the global frame and an empty child
  frame, and the table after \<^verbatim>\<open>x\<close> has been declared in the child frame at line 6.\<close>

definition outer_x_table :: SymbolTable where
  "outer_x_table =
     beginScope (fst (snd (insert_entry (mkEntry ''x'' ''variable'' ''float'' 0 5)
                             (newSymbolTable, newErrorHandler))))"

definition shadow_x_table :: SymbolTable where
  "shadow_x_table =
     fst (snd (insert_entry (mkEntry ''x'' ''variable'' ''float'' 1 6)
                 (outer_x_table, newErrorHandler)))"

lemma outer_x_table_facts:
  "scopes outer_x_table \<noteq> [] \<and> lookupLocal outer_x_table ''x'' = None \<and>
   map_option decl_line (lookup outer_x_table ''x'') = Some 5"
  by code_simp

lemma shadow_x_table_facts:
  "map_option decl_line (lookupLocal shadow_x_table ''x'') = Some 6 \<and>
   map_option scopeLevel (lookup shadow_x_table ''x'') = Some 1 \<and>
   map_option decl_line (map_of (hd (scopes shadow_x_table)) ''x'') = Some 5"
  by code_simp

text \<open>The program \<^verbatim>\<open>x = 1.0; x = 2.0;\<close> from a fresh table.\<close>

definition twice_assigned :: "bool \<Rightarrow> bool \<times> Gen" where
  "twice_assigned linked = run_generator linked newSymbolTable newErrorHandler ''x = 1.0; x = 2.0;''"

lemma twice_assigned_linked_table:
  "(case twice_assigned True of
      (ok, g) \<Rightarrow> ok \<and> errors (err g) = [] \<and>
        scopes (sym g) =
          [[(''x'', (mkEntry ''x'' ''variable'' ''float'' 0 1)\<lparr>memoryAddr := ''stk0'', is_used := True\<rparr>)]])"
  by code_simp

lemma twice_assigned_unlinked_table:
  "(case twice_assigned False of
      (ok, g) \<Rightarrow> ok \<and> errors (err g) = [] \<and>
        scopes (sym g) =
          [[(''x'', (mkEntry ''x'' ''variable'' ''float'' 0 1)\<lparr>memoryAddr := ''0x1000'', is_used := True\<rparr>)]])"
  by code_simp

text \<open>
  Two generators about to parse one statement. In the first the lexer is linked to a fresh
  table, so reading \<^verbatim>\<open>x\<close> has put a placeholder for it into the only frame. In the second
  the lexer is not linked, the global frame holds a declared \<^verbatim>\<open>x\<close> and the innermost frame is
  empty.
\<close>

definition promoting_gen :: Gen where
  "promoting_gen = newGen (setSource ''x = 1.0;'' (newLexer True)) newSymbolTable newErrorHandler"

definition reassigning_gen :: Gen where
  "reassigning_gen = newGen (setSource ''x = 2.0;'' (newLexer False)) outer_x_table newErrorHandler"

text \<open>The fields of an entry that the claims about the assignment target speak of.\<close>

definition entry_state :: "SymbolEntry \<Rightarrow> string \<times> string \<times> bool \<times> bool \<times> int \<times> string \<times> int" where
  "entry_state e = (kind e, type e, is_dummy e, is_used e, decl_line e, memoryAddr e, scopeLevel e)"

lemma promoting_gen_facts:
  "fst (parseStatement promoting_gen) \<and> lexeme (cur promoting_gen) = ''x'' \<and>
   tline (cur promoting_gen) = 1 \<and>
   map_option entry_state (lookupLocal (sym (at_declaration promoting_gen)) ''x'')
     = Some (''token'', ''unknown'', True, False, 1, ''stk0'', 0)"
  by code_simp

lemma reassigning_gen_facts:
  "fst (parseStatement reassigning_gen) \<and> lexeme (cur reassigning_gen) = ''x'' \<and>
   map_option entry_state (lookup (sym (at_declaration reassigning_gen)) ''x'')
     = Some (''variable'', ''float'', False, False, 5, ''0x1000'', 0) \<and>
   map (map fst) (scopes (sym (at_declaration reassigning_gen))) = [[''x''], []]"
  by code_simp

text \<open>
  A program compiled inside a child scope by a generator whose lexer is not linked to the
  table: \<^verbatim>\<open>y = z;\<close> reads the unbound \<^verbatim>\<open>z\<close>, which puts a dummy for \<^verbatim>\<open>z\<close> into the global
  frame; \<^verbatim>\<open>z = 1.0;\<close> then assigns to it.
\<close>

definition nested_after_read :: Gen where
  "nested_after_read =
     snd (run_generator False (beginScope newSymbolTable) newErrorHandler ''y = z;'')"

definition nested_after_assign :: Gen where
  "nested_after_assign =
     snd (run_generator False (sym nested_after_read) (err nested_after_read) ''z = 1.0;'')"

definition entry_summary :: "SymbolEntry \<Rightarrow> string \<times> string \<times> bool \<times> string \<times> int" where
  "entry_summary e = (kind e, type e, is_dummy e, memoryAddr e, scopeLevel e)"

lemma nested_after_read_z:
  "map_option entry_summary (lookup (sym nested_after_read) ''z'')
     = Some (''variable'', ''unknown'', True, [], 0)"
  by code_simp

lemma nested_after_assign_z:
  "map_option entry_summary (lookup (sym nested_after_assign) ''z'')
     = Some (''variable'', ''float'', False, ''stk1'', 1) \<and>
   map_option entry_summary (map_of (hd (scopes (sym nested_after_assign))) ''z'')
     = Some (''variable'', ''unknown'', True, [], 0)"
  by code_simp

text \<open>The instructions generated for \<^verbatim>\<open>x = temp + 1.0; y = 2.0 + 3.0;\<close>.\<close>

definition clobbered_tac :: "TacInst list" where
  "clobbered_tac =
     [newInst\<lparr>op := LOAD_CONST, dest := ''t0'', arg1Literal := ''1.0''\<rparr>,
      newInst\<lparr>op := ADD, dest := ''t1'', arg1 := ''temp'', arg2 := ''t0''\<rparr>,
      newInst\<lparr>op := OP_ASSIGN, dest := ''x'', arg1 := ''t1''\<rparr>,
      newInst\<lparr>op := LOAD_CONST, dest := ''t0'', arg1Literal := ''2.0''\<rparr>,
      newInst\<lparr>op := LOAD_CONST, dest := ''temp'', arg1Literal := ''3.0''\<rparr>,
      newInst\<lparr>op := ADD, dest := ''t2'', arg1 := ''t0'', arg2 := ''temp''\<rparr>,
      newInst\<lparr>op := OP_ASSIGN, dest := ''y'', arg1 := ''t2''\<rparr>]"

definition undeclared_z :: CompilerError where
  "undeclared_z =
     \<lparr>phase = SEMANTIC, severity = ERROR,
      message = ''Undeclared Identifier '' @ [CHR 0x27] @ ''z'' @ [CHR 0x27] @ '' used'',
      line = - 1, column = - 1, recoverable = True\<rparr>"

section \<open>Claims\<close>

subsection \<open>The generator on \<^verbatim>\<open>x = 1.5 + 2.0;\<close>\<close>

text \<open>
  Claim C1. For the input program \<^verbatim>\<open>x = 1.5 + 2.0;\<close>, compiled from a fresh symbol table and
  error handler, the generator emits exactly four instructions, in this order: the load of
  the literal 1.5 into the first temporary \<^verbatim>\<open>t0\<close>, the load of the literal 2.0 into the
  second temporary \<^verbatim>\<open>t1\<close>, the addition of \<^verbatim>\<open>t0\<close> and \<^verbatim>\<open>t1\<close> into the third
  temporary \<^verbatim>\<open>t2\<close>, and the assignment of \<^verbatim>\<open>t2\<close> to \<^verbatim>\<open>x\<close>. This holds whether or not
  the lexer is linked to the symbol table, and \<^verbatim>\<open>generate\<close> returns true.
\<close>

theorem generate_x_is_sum_of_two_literals:
  "(case run_generator True newSymbolTable newErrorHandler ''x = 1.5 + 2.0;'' of
      (ok, g) \<Rightarrow> ok \<and> out g = x_sum_tac) \<and>
   (case run_generator False newSymbolTable newErrorHandler ''x = 1.5 + 2.0;'' of
      (ok, g) \<Rightarrow> ok \<and> out g = x_sum_tac)"
  by code_simp

subsection \<open>What the eliminator computes\<close>

text \<open>
  Claim C2. The claim describes \<^verbatim>\<open>eliminate\<close> as: seed the live set with every named
  (non-temporary) destination that the unused-entries report does not list, scan backwards
  keeping an instruction exactly when its destination is live and then adding the names it
  reads, and return the kept instructions in their original order. The code computes exactly
  this when every name that begins with the letter t is taken for a temporary (lemma
  \<open>eliminate_scans_backwards\<close>), and so it differs from the claim on a user variable whose
  name begins with t. For the program \<^verbatim>\<open>temp = 1.0;\<close> the variable \<^verbatim>\<open>temp\<close> is marked used
  and is absent from the unused-entries report; with the generator's temporaries being the
  names of the shape t<digits>, the claim keeps both instructions, and the code drops both.
  For \<^verbatim>\<open>x = 1.0;\<close> the code keeps both.
\<close>

theorem eliminate_drops_used_variable_temp:
  "(case temp_run ''temp = 1.0;'' of
      (tac, st) \<Rightarrow>
        map_option is_used (lookup st ''temp'') = Some True \<and> ''temp'' \<notin> unusedSet st \<and>
        \<not> minted_shape ''temp'' \<and> eliminate_claimed minted_shape tac st = tac \<and>
        eliminate tac st = []) \<and>
   (case temp_run ''x = 1.0;'' of
      (tac, st) \<Rightarrow> eliminate_claimed minted_shape tac st = tac \<and> eliminate tac st = tac)"
proof
  show "case temp_run ''temp = 1.0;'' of
      (tac, st) \<Rightarrow>
        map_option is_used (lookup st ''temp'') = Some True \<and> ''temp'' \<notin> unusedSet st \<and>
        \<not> minted_shape ''temp'' \<and> eliminate_claimed minted_shape tac st = tac \<and>
        eliminate tac st = []"
    by code_simp
  show "case temp_run ''x = 1.0;'' of
      (tac, st) \<Rightarrow> eliminate_claimed minted_shape tac st = tac \<and> eliminate tac st = tac"
    by code_simp
qed

subsection \<open>Temporaries and the reclaim pool\<close>

text \<open>
  Claim C3. The generator takes a fresh destination from the pool of freed temporaries when
  the pool is not empty and mints \<^verbatim>\<open>t<counter>\<close> otherwise, and the counter and the pool live
  as long as the generator. But the operand of a binary fold is pushed onto the pool whenever
  its name begins with the letter t, so a user variable such as \<^verbatim>\<open>temp\<close> enters the pool:
  after \<^verbatim>\<open>x = temp + 1.0;\<close> the pool is \<^verbatim>\<open>t0, temp\<close>, and in the next statement the
  literal 3.0 is loaded into the user variable \<^verbatim>\<open>temp\<close>.
\<close>

theorem user_variable_enters_the_temporary_pool:
  "freeTemps (snd (run_generator True newSymbolTable newErrorHandler ''x = temp + 1.0;''))
     = [''t0'', ''temp''] \<and>
   out (snd (run_generator True newSymbolTable newErrorHandler ''x = temp + 1.0; y = 2.0 + 3.0;''))
     = clobbered_tac"
proof
  show "freeTemps (snd (run_generator True newSymbolTable newErrorHandler ''x = temp + 1.0;''))
     = [''t0'', ''temp'']"
    by code_simp
  show "out (snd (run_generator True newSymbolTable newErrorHandler ''x = temp + 1.0; y = 2.0 + 3.0;''))
     = clobbered_tac"
    by code_simp
qed

subsection \<open>Reading an unbound name\<close>

text \<open>
  Claim C4, as stated, fails for the compiler as the driver builds it: the lexer, linked to the
  symbol table, has entered a placeholder for \<^verbatim>\<open>z\<close> by the time the generator reads the
  name, so \<^verbatim>\<open>markUsed\<close> finds a binding and no diagnostic at all is reported for
  \<^verbatim>\<open>y = z;\<close>.
\<close>

theorem no_undeclared_identifier_with_linked_lexer_counterexample:
  "errors (err (snd (run_generator True newSymbolTable newErrorHandler ''y = z;''))) = []"
  by code_simp

text \<open>
  Claim C4, amended. Compiling \<^verbatim>\<open>y = z;\<close> from a fresh table with a lexer that is not linked
  to the symbol table reports exactly one error, the Semantic error "Undeclared Identifier 'z'
  used", and leaves in the global frame a dummy entry for \<^verbatim>\<open>z\<close> (kind variable, type unknown)
  whose isUsed flag is true. With the lexer linked to the table nothing is reported, and the
  table ends with the lexer's placeholder for \<^verbatim>\<open>z\<close>: a dummy entry (kind token) whose isUsed
  flag is true.
\<close>

theorem undeclared_read_reported_once_without_placeholder:
  "(case run_generator False newSymbolTable newErrorHandler ''y = z;'' of
      (ok, g) \<Rightarrow>
        ok \<and> errors (err g) = [undeclared_z] \<and>
        lookup (sym g) ''z'' =
          Some ((mkEntry ''z'' ''variable'' ''unknown'' 0 (- 1))\<lparr>is_dummy := True, is_used := True\<rparr>)) \<and>
   (case run_generator True newSymbolTable newErrorHandler ''y = z;'' of
      (ok, g) \<Rightarrow>
        ok \<and> errors (err g) = [] \<and>
        lookup (sym g) ''z'' =
          Some ((mkEntry ''z'' ''token'' ''unknown'' 0 1)
                  \<lparr>memoryAddr := ''stk1'', is_used := True, is_dummy := True\<rparr>))"
proof
  show "case run_generator False newSymbolTable newErrorHandler ''y = z;'' of
      (ok, g) \<Rightarrow>
        ok \<and> errors (err g) = [undeclared_z] \<and>
        lookup (sym g) ''z'' =
          Some ((mkEntry ''z'' ''variable'' ''unknown'' 0 (- 1))\<lparr>is_dummy := True, is_used := True\<rparr>)"
    by code_simp
  show "case run_generator True newSymbolTable newErrorHandler ''y = z;'' of
      (ok, g) \<Rightarrow>
        ok \<and> errors (err g) = [] \<and>
        lookup (sym g) ''z'' =
          Some ((mkEntry ''z'' ''token'' ''unknown'' 0 1)
                  \<lparr>memoryAddr := ''stk1'', is_used := True, is_dummy := True\<rparr>)"
    by code_simp
qed

subsection \<open>Generation always completes\<close>



subsection \<open>Declaring the assignment target\<close>

text \<open>
  Claim C6, as stated, fails: when the dummy that the left-hand name resolves to is held by an
  outer frame, the assignment does not promote it. In the child scope the name \<^verbatim>\<open>z\<close> resolves
  to the global dummy (no address, scope level 0); after \<^verbatim>\<open>z = 1.0;\<close> it resolves to a new
  entry of the child frame with address \<^verbatim>\<open>stk1\<close> and scope level 1, and the global dummy is
  still a dummy.
\<close>

theorem outer_dummy_is_not_promoted_counterexample:
  "map_option entry_summary (lookup (sym nested_after_read) ''z'')
     = Some (''variable'', ''unknown'', True, [], 0) \<and>
   map_option entry_summary (lookup (sym nested_after_assign) ''z'')
     = Some (''variable'', ''float'', False, ''stk1'', 1) \<and>
   map_option entry_summary (map_of (hd (scopes (sym nested_after_assign))) ''z'')
     = Some (''variable'', ''unknown'', True, [], 0)"
  using nested_after_read_z nested_after_assign_z by simp

text \<open>
  Claim C6, amended. The statement \<^verbatim>\<open>lhs = expression;\<close> is compared with the table as it
  stands when the semicolon has been consumed. When the left-hand name is then bound to a dummy
  entry in the innermost frame, the statement promotes that entry where it stands: kind, type, isDummy and declLine are set by
  the declaration step and isUsed is set by the marking that ends the statement; every other
  field (address and scope level among them), the position in the frame, the other bindings,
  the outer frames, the address counter and the error list stay as they were. When the name
  resolves to an entry that is not a dummy, in whichever frame is the innermost one binding it,
  the statement inserts nothing: it sets isUsed of that entry and changes nothing else in the
  table, the address counter or the error list. So \<^verbatim>\<open>x = 1.0; x = 2.0;\<close> reports no error
  and leaves one frame with one entry, for \<^verbatim>\<open>x\<close>: a used float variable declared on
  line 1, at \<^verbatim>\<open>stk0\<close> when the lexer is linked to the table and at \<^verbatim>\<open>0x1000\<close> when it is
  not.
\<close>

theorem assignment_target_promoted_in_place_or_left_alone:
  "(fst (parseStatement g) \<and>
    lookupLocal (sym (at_declaration g)) (lexeme (cur g)) = Some e \<and> is_dummy e \<longrightarrow>
      lookup (sym (at_declaration g)) (lexeme (cur g)) = Some e \<and>
      lookupLocal (sym (snd (parseStatement g))) =
        (lookupLocal (sym (at_declaration g)))(lexeme (cur g) \<mapsto>
           e\<lparr>kind := ''variable'', type := ''float'', is_dummy := False,
             decl_line := tline (cur g), is_used := True\<rparr>) \<and>
      lookup (sym (snd (parseStatement g))) (lexeme (cur g)) =
        Some (e\<lparr>kind := ''variable'', type := ''float'', is_dummy := False,
                decl_line := tline (cur g), is_used := True\<rparr>) \<and>
      map fst (last (scopes (sym (snd (parseStatement g))))) =
        map fst (last (scopes (sym (at_declaration g)))) \<and>
      butlast (scopes (sym (snd (parseStatement g)))) = butlast (scopes (sym (at_declaration g))) \<and>
      nextMemoryIndex (sym (snd (parseStatement g))) = nextMemoryIndex (sym (at_declaration g)) \<and>
      err (snd (parseStatement g)) = err (at_declaration g)) \<and>
   (fst (parseStatement g) \<and>
    lookup (sym (at_declaration g)) (lexeme (cur g)) = Some e \<and> \<not> is_dummy e \<longrightarrow>
      (\<exists>i<length (scopes (sym (at_declaration g))).
         map_of (scopes (sym (at_declaration g)) ! i) (lexeme (cur g)) = Some e \<and>
         (\<forall>j. i < j \<and> j < length (scopes (sym (at_declaration g))) \<longrightarrow>
                map_of (scopes (sym (at_declaration g)) ! j) (lexeme (cur g)) = None) \<and>
         scopes (sym (snd (parseStatement g))) =
           (scopes (sym (at_declaration g)))
             [i := frame_put (lexeme (cur g)) (e\<lparr>is_used := True\<rparr>)
                     (scopes (sym (at_declaration g)) ! i)]) \<and>
      lookup (sym (snd (parseStatement g))) (lexeme (cur g)) = Some (e\<lparr>is_used := True\<rparr>) \<and>
      map (map fst) (scopes (sym (snd (parseStatement g)))) =
        map (map fst) (scopes (sym (at_declaration g))) \<and>
      nextMemoryIndex (sym (snd (parseStatement g))) = nextMemoryIndex (sym (at_declaration g)) \<and>
      err (snd (parseStatement g)) = err (at_declaration g)) \<and>
   (case twice_assigned True of
      (ok, g) \<Rightarrow> ok \<and> errors (err g) = [] \<and>
        scopes (sym g) =
          [[(''x'', (mkEntry ''x'' ''variable'' ''float'' 0 1)\<lparr>memoryAddr := ''stk0'', is_used := True\<rparr>)]]) \<and>
   (case twice_assigned False of
      (ok, g) \<Rightarrow> ok \<and> errors (err g) = [] \<and>
        scopes (sym g) =
          [[(''x'', (mkEntry ''x'' ''variable'' ''float'' 0 1)\<lparr>memoryAddr := ''0x1000'', is_used := True\<rparr>)]])"
proof -
  let ?lhs = "lexeme (cur g)"
  let ?ln = "tline (cur g)"
  let ?st = "sym (at_declaration g)"
  let ?h = "err (at_declaration g)"
  let ?g' = "snd (parseStatement g)"
  have A: "lookup ?st ?lhs = Some e \<and>
      lookupLocal (sym ?g') =
        (lookupLocal ?st)(?lhs \<mapsto>
           e\<lparr>kind := ''variable'', type := ''float'', is_dummy := False,
             decl_line := ?ln, is_used := True\<rparr>) \<and>
      lookup (sym ?g') ?lhs =
        Some (e\<lparr>kind := ''variable'', type := ''float'', is_dummy := False,
                decl_line := ?ln, is_used := True\<rparr>) \<and>
      map fst (last (scopes (sym ?g'))) = map fst (last (scopes ?st)) \<and>
      butlast (scopes (sym ?g')) = butlast (scopes ?st) \<and>
      nextMemoryIndex (sym ?g') = nextMemoryIndex ?st \<and>
      err ?g' = ?h"
    if ok: "fst (parseStatement g)" and loc: "lookupLocal ?st ?lhs = Some e" and du: "is_dummy e"
  proof -
    let ?p = "promote ?ln e"
    let ?f1 = "frame_put ?lhs ?p (last (scopes ?st))"
    let ?st1 = "set_back ?f1 ?st"
    let ?f2 = "frame_put ?lhs (?p\<lparr>is_used := True\<rparr>) ?f1"
    have ne: "scopes ?st \<noteq> []" and m: "map_of (last (scopes ?st)) ?lhs = Some e"
      using loc by (auto simp: lookupLocal_def split: if_splits)
    have e1: "ensureLhs ?lhs ?ln (?st, ?h) = (?st1, ?h)"
      using loc du by (rule ensureLhs_local_dummy)
    have l1: "lookupLocal ?st1 ?lhs = Some ?p" by (simp add: map_of_frame_put)
    have m1: "markUsed ?lhs (?st1, ?h) = (set_back ?f2 ?st1, ?h)"
      using markUsed_local [OF l1, of ?h] by simp
    from parseStatement_success [OF ok]
    have s: "sym ?g' = set_back ?f2 ?st1" and h: "err ?g' = ?h"
      by (auto simp: e1 m1)
    have l2: "lookupLocal (sym ?g') =
        (lookupLocal ?st)(?lhs \<mapsto>
           e\<lparr>kind := ''variable'', type := ''float'', is_dummy := False,
             decl_line := ?ln, is_used := True\<rparr>)"
      using ne by (simp add: s map_of_frame_put promote_def) (simp add: lookupLocal_def fun_eq_iff)
    have l3: "lookup (sym ?g') ?lhs =
        Some (e\<lparr>kind := ''variable'', type := ''float'', is_dummy := False,
                decl_line := ?ln, is_used := True\<rparr>)"
      by (rule lookupLocal_lookup) (simp add: l2)
    have k1: "map fst ?f1 = map fst (last (scopes ?st))" using m by (simp add: keys_frame_put)
    have "map_of ?f1 ?lhs \<noteq> None" by (simp add: map_of_frame_put)
    then have k2: "map fst ?f2 = map fst ?f1" by (rule keys_frame_put)
    show ?thesis
      using loc l2 l3 k1 k2 h by (simp add: s lookupLocal_lookup)
  qed
  have B: "(\<exists>i<length (scopes ?st).
         map_of (scopes ?st ! i) ?lhs = Some e \<and>
         (\<forall>j. i < j \<and> j < length (scopes ?st) \<longrightarrow> map_of (scopes ?st ! j) ?lhs = None) \<and>
         scopes (sym ?g') =
           (scopes ?st)[i := frame_put ?lhs (e\<lparr>is_used := True\<rparr>) (scopes ?st ! i)]) \<and>
      lookup (sym ?g') ?lhs = Some (e\<lparr>is_used := True\<rparr>) \<and>
      map (map fst) (scopes (sym ?g')) = map (map fst) (scopes ?st) \<and>
      nextMemoryIndex (sym ?g') = nextMemoryIndex ?st \<and>
      err ?g' = ?h"
    if ok: "fst (parseStatement g)" and lk: "lookup ?st ?lhs = Some e" and nd: "\<not> is_dummy e"
  proof -
    have e1: "ensureLhs ?lhs ?ln (?st, ?h) = (?st, ?h)"
      using lk nd by (rule ensureLhs_concrete)
    from markUsed_found [OF lk, of ?h] obtain i where i:
      "i < length (scopes ?st)" "map_of (scopes ?st ! i) ?lhs = Some e"
      "\<forall>j. i < j \<and> j < length (scopes ?st) \<longrightarrow> map_of (scopes ?st ! j) ?lhs = None"
      "markUsed ?lhs (?st, ?h) =
         (?st\<lparr>scopes := (scopes ?st)[i := frame_put ?lhs (e\<lparr>is_used := True\<rparr>) (scopes ?st ! i)]\<rparr>, ?h)"
      by blast
    from parseStatement_success [OF ok]
    have s: "sym ?g' =
        ?st\<lparr>scopes := (scopes ?st)[i := frame_put ?lhs (e\<lparr>is_used := True\<rparr>) (scopes ?st ! i)]\<rparr>"
      and h: "err ?g' = ?h"
      by (auto simp: e1 i(4))
    note lm = lookup_marked [OF i(1) i(2) i(3), of "e\<lparr>is_used := True\<rparr>"]
    have sc: "scopes (sym ?g') =
        (scopes ?st)[i := frame_put ?lhs (e\<lparr>is_used := True\<rparr>) (scopes ?st ! i)]"
      by (simp add: s)
    have "\<exists>i<length (scopes ?st).
         map_of (scopes ?st ! i) ?lhs = Some e \<and>
         (\<forall>j. i < j \<and> j < length (scopes ?st) \<longrightarrow> map_of (scopes ?st ! j) ?lhs = None) \<and>
         scopes (sym ?g') =
           (scopes ?st)[i := frame_put ?lhs (e\<lparr>is_used := True\<rparr>) (scopes ?st ! i)]"
      using i(1) i(2) i(3) sc by blast
    moreover have "lookup (sym ?g') ?lhs = Some (e\<lparr>is_used := True\<rparr>)"
      using lm by (simp add: s)
    moreover have "map (map fst) (scopes (sym ?g')) = map (map fst) (scopes ?st)"
      using lm by (simp add: sc)
    moreover have "nextMemoryIndex (sym ?g') = nextMemoryIndex ?st" by (simp add: s)
    ultimately show ?thesis using h by blast
  qed
  show ?thesis
    using A B twice_assigned_linked_table twice_assigned_unlinked_table by blast
qed

theorem assignment_target_promoted_in_place_or_left_alone_witness:
  "fst (parseStatement promoting_gen) \<and>
   map_option entry_state (lookupLocal (sym (at_declaration promoting_gen)) ''x'')
     = Some (''token'', ''unknown'', True, False, 1, ''stk0'', 0) \<and>
   map_option entry_state (lookup (sym (snd (parseStatement promoting_gen))) ''x'')
     = Some (''variable'', ''float'', False, True, 1, ''stk0'', 0) \<and>
   map (map fst) (scopes (sym (snd (parseStatement promoting_gen)))) = [[''x'']] \<and>
   fst (parseStatement reassigning_gen) \<and>
   map_option entry_state (lookup (sym (at_declaration reassigning_gen)) ''x'')
     = Some (''variable'', ''float'', False, False, 5, ''0x1000'', 0) \<and>
   map_option entry_state (lookup (sym (snd (parseStatement reassigning_gen))) ''x'')
     = Some (''variable'', ''float'', False, True, 5, ''0x1000'', 0) \<and>
   map (map fst) (scopes (sym (snd (parseStatement reassigning_gen)))) = [[''x''], []]"
proof -
  note p = promoting_gen_facts
  note r = reassigning_gen_facts
  obtain e where e: "lookupLocal (sym (at_declaration promoting_gen)) ''x'' = Some e"
      "entry_state e = (''token'', ''unknown'', True, False, 1, ''stk0'', 0)"
    using p by (cases "lookupLocal (sym (at_declaration promoting_gen)) ''x''") auto
  then have de: "is_dummy e" by (simp add: entry_state_def)
  obtain c where c: "lookup (sym (at_declaration reassigning_gen)) ''x'' = Some c"
      "entry_state c = (''variable'', ''float'', False, False, 5, ''0x1000'', 0)"
    using r by (cases "lookup (sym (at_declaration reassigning_gen)) ''x''") auto
  then have dc: "\<not> is_dummy c" by (simp add: entry_state_def)
  have px: "lexeme (cur promoting_gen) = ''x''" "tline (cur promoting_gen) = 1"
      "fst (parseStatement promoting_gen)" using p by simp_all
  have rx: "lexeme (cur reassigning_gen) = ''x''" "fst (parseStatement reassigning_gen)"
    using r by simp_all
  have P: "lookup (sym (snd (parseStatement promoting_gen))) ''x'' =
        Some (e\<lparr>kind := ''variable'', type := ''float'', is_dummy := False,
                decl_line := 1, is_used := True\<rparr>) \<and>
      map fst (last (scopes (sym (snd (parseStatement promoting_gen))))) =
        map fst (last (scopes (sym (at_declaration promoting_gen)))) \<and>
      butlast (scopes (sym (snd (parseStatement promoting_gen)))) =
        butlast (scopes (sym (at_declaration promoting_gen)))"
    using assignment_target_promoted_in_place_or_left_alone [of promoting_gen e] e(1) de px
    by simp
  have R: "lookup (sym (snd (parseStatement reassigning_gen))) ''x'' = Some (c\<lparr>is_used := True\<rparr>) \<and>
      map (map fst) (scopes (sym (snd (parseStatement reassigning_gen)))) =
        map (map fst) (scopes (sym (at_declaration reassigning_gen)))"
    using assignment_target_promoted_in_place_or_left_alone [of reassigning_gen c] c(1) dc rx
    by simp
  have k: "map (map fst) (scopes (sym (snd (parseStatement promoting_gen)))) = [[''x'']]"
    by code_simp
  show ?thesis using p r P R e(2) c(2) k by (simp add: entry_state_def)
qed

subsection \<open>Duplicate declarations and shadowing\<close>

text \<open>
  Claim C7. \<^verbatim>\<open>insert\<close> fails and reports exactly when the name is bound in the innermost
  frame: then it returns false, leaves the table as it is and appends one Semantic error whose
  message cites the declaration line of the entry already there. When the stack has a frame and
  the innermost frame does not bind the name, whether or not an outer frame does, it returns
  true, reports nothing, and the innermost frame binds the name to the new entry, which
  shadows any outer one; the outer frames are untouched. (On an empty stack \<^verbatim>\<open>insert\<close>
  returns false and reports nothing.)
\<close>

theorem insert_fails_iff_bound_in_innermost_frame:
  "((\<not> fst (insert_entry e (st, h)) \<and> snd (snd (insert_entry e (st, h))) \<noteq> h)
      \<longleftrightarrow> existsInCurrentScope st (name e)) \<and>
   (lookupLocal st (name e) = Some old \<longrightarrow>
      insert_entry e (st, h) =
        (False, st,
         h\<lparr>errors := errors h @
            [\<lparr>phase = SEMANTIC, severity = ERROR,
              message = ''Duplicate declaration of '' @ [CHR 0x27] @ name e @ [CHR 0x27] @
                        ''; previously declared at line '' @ to_string (decl_line old),
              line = decl_line e, column = - 1, recoverable = True\<rparr>]\<rparr>)) \<and>
   (scopes st \<noteq> [] \<and> lookupLocal st (name e) = None \<longrightarrow>
      fst (insert_entry e (st, h)) \<and> snd (snd (insert_entry e (st, h))) = h \<and>
      butlast (scopes (fst (snd (insert_entry e (st, h))))) = butlast (scopes st) \<and>
      lookupLocal (fst (snd (insert_entry e (st, h)))) =
        (lookupLocal st)(name e \<mapsto>
           fst (assignAddr (e\<lparr>scopeLevel := currentScope st\<rparr>) (nextMemoryIndex st))) \<and>
      lookup (fst (snd (insert_entry e (st, h)))) (name e) =
        Some (fst (assignAddr (e\<lparr>scopeLevel := currentScope st\<rparr>) (nextMemoryIndex st))))"
proof (intro conjI impI)
  show "(\<not> fst (insert_entry e (st, h)) \<and> snd (snd (insert_entry e (st, h))) \<noteq> h)
      \<longleftrightarrow> existsInCurrentScope st (name e)"
  proof (cases "lookupLocal st (name e)")
    case (Some old)
    then show ?thesis
      using insert_entry_duplicate [OF Some, of h] reportError_neq
      by (simp add: existsInCurrentScope_def reportDuplicate_def)
  next
    case None
    then show ?thesis
      using insert_entry_empty [of st e h] insert_entry_fresh [of st e h]
      by (cases "scopes st = []") (simp_all add: existsInCurrentScope_def)
  qed
next
  assume "lookupLocal st (name e) = Some old"
  then show "insert_entry e (st, h) =
        (False, st,
         h\<lparr>errors := errors h @
            [\<lparr>phase = SEMANTIC, severity = ERROR,
              message = ''Duplicate declaration of '' @ [CHR 0x27] @ name e @ [CHR 0x27] @
                        ''; previously declared at line '' @ to_string (decl_line old),
              line = decl_line e, column = - 1, recoverable = True\<rparr>]\<rparr>)"
    by (simp add: insert_entry_duplicate reportDuplicate_def reportError_def)
next
  assume a: "scopes st \<noteq> [] \<and> lookupLocal st (name e) = None"
  let ?e = "fst (assignAddr (e\<lparr>scopeLevel := currentScope st\<rparr>) (nextMemoryIndex st))"
  let ?st = "fst (snd (insert_entry e (st, h)))"
  have i: "insert_entry e (st, h) =
     (True, set_back (frame_put (name e) ?e (last (scopes st)))
        (st\<lparr>nextMemoryIndex := snd (assignAddr (e\<lparr>scopeLevel := currentScope st\<rparr>) (nextMemoryIndex st))\<rparr>), h)"
    using a by (simp add: insert_entry_fresh)
  show "fst (insert_entry e (st, h))" by (simp add: i)
  show "snd (snd (insert_entry e (st, h))) = h" by (simp add: i)
  show "butlast (scopes ?st) = butlast (scopes st)" by (simp add: i)
  show l: "lookupLocal ?st = (lookupLocal st)(name e \<mapsto> ?e)"
    using a by (simp add: i map_of_frame_put) (simp add: lookupLocal_def fun_eq_iff)
  show "lookup ?st (name e) = Some ?e"
    by (rule lookupLocal_lookup) (simp add: l)
qed

theorem insert_fails_iff_bound_in_innermost_frame_witness:
  "scopes outer_x_table \<noteq> [] \<and> lookupLocal outer_x_table ''x'' = None \<and>
   map_option decl_line (lookup outer_x_table ''x'') = Some 5 \<and>
   fst (insert_entry (mkEntry ''x'' ''variable'' ''float'' 1 6) (outer_x_table, newErrorHandler)) \<and>
   snd (snd (insert_entry (mkEntry ''x'' ''variable'' ''float'' 1 6) (outer_x_table, newErrorHandler)))
     = newErrorHandler \<and>
   map_option decl_line (lookupLocal shadow_x_table ''x'') = Some 6 \<and>
   \<not> fst (insert_entry (mkEntry ''x'' ''variable'' ''float'' 1 9) (shadow_x_table, newErrorHandler)) \<and>
   map message (errors (snd (snd (insert_entry (mkEntry ''x'' ''variable'' ''float'' 1 9)
                                    (shadow_x_table, newErrorHandler)))))
     = [''Duplicate declaration of '' @ [CHR 0x27] @ ''x'' @ [CHR 0x27] @
        ''; previously declared at line 6'']"
proof -
  note o = outer_x_table_facts
  note s = shadow_x_table_facts
  obtain old where old: "lookupLocal shadow_x_table ''x'' = Some old" "decl_line old = 6"
    using s by (cases "lookupLocal shadow_x_table ''x''") auto
  have n: "name (mkEntry ''x'' ''variable'' ''float'' 1 l) = ''x''" for l
    by (simp add: mkEntry_def)
  have six: "to_string 6 = ''6''" by code_simp
  have a: "fst (insert_entry (mkEntry ''x'' ''variable'' ''float'' 1 6) (outer_x_table, newErrorHandler)) \<and>
      snd (snd (insert_entry (mkEntry ''x'' ''variable'' ''float'' 1 6) (outer_x_table, newErrorHandler)))
        = newErrorHandler"
    using insert_fails_iff_bound_in_innermost_frame
            [of "mkEntry ''x'' ''variable'' ''float'' 1 6" outer_x_table newErrorHandler] o
    by (simp add: n)
  have b: "insert_entry (mkEntry ''x'' ''variable'' ''float'' 1 9) (shadow_x_table, newErrorHandler) =
        (False, shadow_x_table,
         newErrorHandler\<lparr>errors := errors newErrorHandler @
            [\<lparr>phase = SEMANTIC, severity = ERROR,
              message = ''Duplicate declaration of '' @ [CHR 0x27] @ ''x'' @ [CHR 0x27] @
                        ''; previously declared at line '' @ to_string 6,
              line = 9, column = - 1, recoverable = True\<rparr>]\<rparr>)"
    using insert_fails_iff_bound_in_innermost_frame
            [of "mkEntry ''x'' ''variable'' ''float'' 1 9" shadow_x_table newErrorHandler old] old
    by (simp add: n) (simp add: mkEntry_def)
  have en: "errors newErrorHandler = []" by (simp add: newErrorHandler_def)
  have c: "\<not> fst (insert_entry (mkEntry ''x'' ''variable'' ''float'' 1 9) (shadow_x_table, newErrorHandler)) \<and>
     map message (errors (snd (snd (insert_entry (mkEntry ''x'' ''variable'' ''float'' 1 9)
                                    (shadow_x_table, newErrorHandler)))))
     = [''Duplicate declaration of '' @ [CHR 0x27] @ ''x'' @ [CHR 0x27] @
        ''; previously declared at line 6'']"
    by (simp add: b six en)
  show ?thesis using o s a c by blast
qed

subsection \<open>Idempotence of elimination\<close>

text \<open>
  Claim C8. Elimination is idempotent: with the same symbol table, eliminating the output of
  \<^verbatim>\<open>eliminate\<close> once more returns it unchanged.
\<close>

theorem eliminate_idempotent: "eliminate (eliminate tac st) st = eliminate tac st"
proof -
  let ?K = "backward_scan (initialLive tac st) (rev tac)"
  have e: "eliminate tac st = rev ?K" by (rule eliminate_backward)
  have "backward_scan (initialLive (rev ?K) st) ?K = ?K"
  proof (rule backward_scan_idem, intro ballI impI)
    fix i assume i: "i \<in> set ?K" and d: "dest i \<in> initialLive tac st"
    then show "dest i \<in> initialLive (rev ?K) st"
      by (auto simp: initialLive_def declared_def)
  qed
  then show ?thesis by (simp add: e eliminate_backward [of "rev ?K"])
qed

subsection \<open>Liveness per name\<close>

text \<open>
  Claim C9. The live set of the backward scan only grows, and liveness is tracked per name:
  when the instruction at position \<open>j\<close> is kept, every earlier instruction (position
  \<open>i < j\<close>) with the same destination is kept too, whatever lies between them.
\<close>

theorem live_set_grows_and_retention_is_per_name:
  "fst lk \<subseteq> fst (scan n tac lk) \<and>
   (i < j \<and> j < length tac \<and> dest (tac ! i) = dest (tac ! j) \<and> keepFlags tac st ! j
      \<longrightarrow> keepFlags tac st ! i)"
  using scan_live_grows [of lk n tac] keepFlags_per_name [of i j tac st] by blast

theorem live_set_grows_and_retention_is_per_name_witness:
  "(0::nat) < 1 \<and> 1 < length shadowed_tac \<and> dest (shadowed_tac ! 0) = dest (shadowed_tac ! 1) \<and>
   keepFlags shadowed_tac newSymbolTable ! 1 \<and> keepFlags shadowed_tac newSymbolTable ! 0 \<and>
   eliminate shadowed_tac newSymbolTable = shadowed_tac"
proof -
  have h: "(0::nat) < 1 \<and> 1 < length shadowed_tac \<and>
      dest (shadowed_tac ! 0) = dest (shadowed_tac ! 1) \<and> keepFlags shadowed_tac newSymbolTable ! 1"
    by code_simp
  have e: "eliminate shadowed_tac newSymbolTable = shadowed_tac" by code_simp
  from live_set_grows_and_retention_is_per_name
         [of "({}, [])" 0 shadowed_tac 0 1 newSymbolTable] h
  have "keepFlags shadowed_tac newSymbolTable ! 0" by blast
  with h e show ?thesis by blast
qed

subsection \<open>Names that begin with t\<close>

text \<open>
  Claim C10. The eliminator takes a destination for a temporary when its name begins with the
  letter t, and for nothing else. Such a name is never in the initial live set, whatever the
  symbol table says about it (a user variable \<^verbatim>\<open>temp\<close> that is marked used included); so
  an instruction defining it is kept only when a later instruction that is itself kept reads
  the name.
\<close>

theorem t_names_are_not_seeded:
  "(d \<noteq> [] \<and> hd d = CHR ''t'' \<longrightarrow> d \<notin> initialLive tac st) \<and>
   (i < length tac \<and> dest (tac ! i) \<noteq> [] \<and> hd (dest (tac ! i)) = CHR ''t'' \<and> keepFlags tac st ! i
      \<longrightarrow> (\<exists>j. i < j \<and> j < length tac \<and> keepFlags tac st ! j \<and>
                dest (tac ! i) \<in> set (usesOf (tac ! j))))"
proof (intro conjI impI)
  assume "d \<noteq> [] \<and> hd d = CHR ''t''"
  then show "d \<notin> initialLive tac st" using initialLive_named [of d tac st] by blast
next
  assume a: "i < length tac \<and> dest (tac ! i) \<noteq> [] \<and> hd (dest (tac ! i)) = CHR ''t'' \<and>
    keepFlags tac st ! i"
  then have "dest (tac ! i) \<notin> initialLive tac st"
    using initialLive_named [of "dest (tac ! i)" tac st] by blast
  with a show "\<exists>j. i < j \<and> j < length tac \<and> keepFlags tac st ! j \<and>
      dest (tac ! i) \<in> set (usesOf (tac ! j))"
    using keepFlags_reason [of i tac st] by blast
qed

theorem t_names_are_not_seeded_witness:
  "(case temp_run ''temp = 1.0;'' of
      (tac, st) \<Rightarrow> map_option is_used (lookup st ''temp'') = Some True \<and> length tac = 2 \<and>
                   ''temp'' \<notin> initialLive tac st \<and> eliminate tac st = []) \<and>
   (case temp_run ''temp = 1.0; x = temp;'' of
      (tac, st) \<Rightarrow> 1 < length tac \<and> dest (tac ! 1) = ''temp'' \<and> keepFlags tac st ! 1 \<and>
                   (\<exists>j. 1 < j \<and> j < length tac \<and> keepFlags tac st ! j \<and>
                        ''temp'' \<in> set (usesOf (tac ! j))))"
proof -
  obtain tac st where r: "temp_run ''temp = 1.0;'' = (tac, st)" by (cases "temp_run ''temp = 1.0;''")
  obtain tac' st' where r': "temp_run ''temp = 1.0; x = temp;'' = (tac', st')"
    by (cases "temp_run ''temp = 1.0; x = temp;''")
  have "''temp'' \<notin> initialLive tac st"
    using t_names_are_not_seeded [of "''temp''" tac st] by simp
  moreover have "\<exists>j. 1 < j \<and> j < length tac' \<and> keepFlags tac' st' ! j \<and>
      ''temp'' \<in> set (usesOf (tac' ! j))"
    using t_names_are_not_seeded [of "''temp''" tac' st' 1] temp_read r' by simp
  ultimately show ?thesis using temp_alone temp_read r r' by simp
qed

end
